theory Spec2Isabelle
  imports Complex_Main "HOL-Library.Multiset" "HOL-Library.Sublist"
begin

section \<open>Data model (operon\_analyzer/genes.py)\<close>

text \<open>
  Exceptions of the Python code are values. \<open>AssertionError\<close> carries the message of the
  failed \<^verbatim>\<open>assert\<close>; \<open>IndexError\<close> is what \<^verbatim>\<open>xs[0]\<close> raises on an empty list;
  \<open>ReError\<close> is what \<^verbatim>\<open>re.compile\<close> raises on an ill-formed pattern; \<open>LoadError\<close> stands
  for whatever the sequence loader raises.
\<close>

datatype error = AssertionError string | IndexError | ReError | LoadError

text \<open>
  \<^verbatim>\<open>class Feature\<close>. Python floats (\<^verbatim>\<open>e_val\<close>, \<^verbatim>\<open>bit_score\<close>) are only ever tested for
  presence by the code modelled here; \<^verbatim>\<open>Optional[...]\<close> is \<open>option\<close>.
\<close>

record feature =
  name :: string
  coordinates :: "int \<times> int"
  orfid :: string
  strand :: "int option"
  accession :: string
  e_val :: "real option"
  bit_score :: "real option"
  description :: string
  sequence :: string
  ignored_reasons :: "string list"

text \<open>\<^verbatim>\<open>Feature.__init__\<close>: every field is stored, \<^verbatim>\<open>ignored_reasons\<close> starts empty.\<close>

definition Feature_init ::
  "string \<Rightarrow> int \<times> int \<Rightarrow> string \<Rightarrow> int option \<Rightarrow> string \<Rightarrow> real option \<Rightarrow> string \<Rightarrow> string
    \<Rightarrow> real option \<Rightarrow> feature" where
  "Feature_init nm coords oid strnd acc ev descr sq bs =
     \<lparr>name = nm, coordinates = coords, orfid = oid, strand = strnd, accession = acc,
      e_val = ev, bit_score = bs, description = descr, sequence = sq, ignored_reasons = []\<rparr>"

text \<open>\<^verbatim>\<open>Feature.ignore\<close>: \<^verbatim>\<open>self.ignored_reasons.append(reason)\<close>.\<close>

definition ignore :: "feature \<Rightarrow> string \<Rightarrow> feature" where
  "ignore f reason = f\<lparr>ignored_reasons := ignored_reasons f @ [reason]\<rparr>"

text \<open>The properties \<^verbatim>\<open>Feature.start\<close> and \<^verbatim>\<open>Feature.end\<close>: \<^verbatim>\<open>min\<close> and \<^verbatim>\<open>max\<close> of the pair.\<close>

definition feature_start :: "feature \<Rightarrow> int" where
  "feature_start f = min (fst (coordinates f)) (snd (coordinates f))"

definition feature_end :: "feature \<Rightarrow> int" where
  "feature_end f = max (fst (coordinates f)) (snd (coordinates f))"

text \<open>\<^verbatim>\<open>class Operon\<close>; the field \<^verbatim>\<open>_features\<close> is \<open>features\<close>.\<close>

record operon =
  contig :: string
  contig_filename :: string
  operon_start :: int
  operon_end :: int
  features :: "feature list"

text \<open>
  \<^verbatim>\<open>Operon.__init__\<close>: three assertions in the order of the source, then the five
  assignments. A falsy \<^verbatim>\<open>str\<close> is the empty string, a falsy \<^verbatim>\<open>list\<close> the empty list.
\<close>

definition Operon_init ::
  "string \<Rightarrow> string \<Rightarrow> int \<Rightarrow> int \<Rightarrow> feature list \<Rightarrow> error + operon" where
  "Operon_init c cf s e fs =
     (if c = [] then Inl (AssertionError ''Missing contig name'')
      else if \<not> (0 \<le> s \<and> 0 \<le> e) then Inl (AssertionError ''Invalid contig position'')
      else if fs = [] then Inl (AssertionError ''Contig did not contain any features'')
      else Inr \<lparr>contig = c, contig_filename = cf, operon_start = s, operon_end = e,
                features = fs\<rparr>)"

text \<open>\<^verbatim>\<open>all_genes\<close>, \<^verbatim>\<open>all_features\<close>, \<^verbatim>\<open>__iter__\<close>, \<^verbatim>\<open>__len__\<close>, \<^verbatim>\<open>feature_names\<close>.\<close>

definition all_genes :: "operon \<Rightarrow> feature list" where
  "all_genes op = filter (\<lambda>f. e_val f \<noteq> None) (features op)"

definition all_features :: "operon \<Rightarrow> feature list" where
  "all_features op = features op"

definition operon_iter :: "operon \<Rightarrow> feature list" where
  "operon_iter op = filter (\<lambda>f. ignored_reasons f = []) (features op)"

definition operon_len :: "operon \<Rightarrow> nat" where
  "operon_len op = length (operon_iter op)"

definition feature_names :: "operon \<Rightarrow> string list" where
  "feature_names op = map name (operon_iter op)"

text \<open>
  A Feature is a mutable object owned by exactly one Operon, at one position of its list.
  Calling \<^verbatim>\<open>ignore(reason)\<close> on the Feature stored at index \<open>i\<close> is, seen from the Operon,
  the update of that position.
\<close>

definition ignore_at :: "operon \<Rightarrow> nat \<Rightarrow> string \<Rightarrow> operon" where
  "ignore_at op i reason = op\<lparr>features := (features op)[i := ignore (features op ! i) reason]\<rparr>"




section \<open>Evaluation pipeline (operon\_analyzer/analyze.py)\<close>

text \<open>
  \<^verbatim>\<open>_evaluate_operons\<close>. The rule and filter policies live in a module that is not part of
  the sources: the rule policy is a function from an Operon to a Result of any type, the
  optional filter policy a function that returns the Operon as it left it (it mutates
  the Features in place). The generator is the list of the values it yields.
\<close>

fun evaluate_operons :: "operon list \<Rightarrow> (operon \<Rightarrow> 'r) \<Rightarrow> (operon \<Rightarrow> operon) option \<Rightarrow> 'r list" where
  "evaluate_operons [] ruleset filterset = []"
| "evaluate_operons (op # operons) ruleset filterset =
     (case filterset of
        None \<Rightarrow> ruleset op # evaluate_operons operons ruleset filterset
      | Some fs \<Rightarrow> ruleset (fs op) # evaluate_operons operons ruleset filterset)"

section \<open>Feature-order clustering\<close>

text \<open>
  \<^verbatim>\<open>_get_sorted_feature_names\<close>. Python's \<^verbatim>\<open>sorted\<close> is stable, and so is \<open>sort_key\<close>
  (insertion sort from the right).
\<close>

definition get_sorted_feature_names :: "operon \<Rightarrow> string list" where
  "get_sorted_feature_names op = map name (sort_key feature_start (operon_iter op))"

text \<open>
  The \<^verbatim>\<open>defaultdict(list)\<close> keeps its keys in insertion order, and the deduplication
  loops read it in that order: it is an association list. \<open>bins_append\<close> is
  \<^verbatim>\<open>bins[key].append(operon)\<close>: an absent key is created at the end with an empty list.
\<close>

type_synonym bins = "(string list \<times> operon list) list"

fun bins_append :: "string list \<Rightarrow> operon \<Rightarrow> bins \<Rightarrow> bins" where
  "bins_append key op [] = [(key, [op])]"
| "bins_append key op ((k, v) # rest) =
     (if k = key then (k, v @ [op]) # rest else (k, v) # bins_append key op rest)"

text \<open>The loop of \<^verbatim>\<open>cluster_operons_by_feature_order\<close>, from a given state of \<^verbatim>\<open>bins\<close>.\<close>

fun cluster_loop :: "operon list \<Rightarrow> bins \<Rightarrow> bins" where
  "cluster_loop [] bins = bins"
| "cluster_loop (op # operons) bins =
     (let feature_names = get_sorted_feature_names op;
          reverse_feature_names = rev feature_names
      in if reverse_feature_names \<notin> set (map fst bins)
         then cluster_loop operons (bins_append feature_names op bins)
         else cluster_loop operons (bins_append reverse_feature_names op bins))"

definition cluster_operons_by_feature_order :: "operon list \<Rightarrow> bins" where
  "cluster_operons_by_feature_order operons = cluster_loop operons []"

section \<open>Approximate equality\<close>

text \<open>
  \<^verbatim>\<open>_operons_are_approximately_equal\<close>, binding by binding. \<^verbatim>\<open>xs[1:]\<close> is \<open>drop 1 xs\<close>,
  \<^verbatim>\<open>zip\<close> stops at the shorter list in both languages, \<^verbatim>\<open>all\<close> of a list is \<open>list_all\<close>.
\<close>

definition operons_are_approximately_equal :: "operon \<Rightarrow> operon \<Rightarrow> bool" where
  "operons_are_approximately_equal leader op =
     (let leader_features = sort_key feature_start (operon_iter leader);
          operon_features = sort_key feature_start (operon_iter op);
          leader_names = map name leader_features;
          operon_names = map name operon_features;
          leader_features = filter (\<lambda>f. name f \<noteq> ''CRISPR array'') leader_features;
          operon_features = filter (\<lambda>f. name f \<noteq> ''CRISPR array'') operon_features;
          leader_gaps = map (\<lambda>(f1, f2). feature_start f2 - feature_end f1)
                          (zip leader_features (drop 1 leader_features));
          operon_gaps = map (\<lambda>(f1, f2). feature_start f2 - feature_end f1)
                          (zip operon_features (drop 1 operon_features))
      in if leader_names = operon_names \<and> leader_gaps = operon_gaps
         then list_all (\<lambda>(l, o'). sequence l = sequence o') (zip leader_features operon_features)
         else if leader_names = rev operon_names \<and> leader_gaps = rev operon_gaps
         then list_all (\<lambda>(l, o'). sequence l = sequence o')
                (zip leader_features (rev operon_features))
         else False)"

section \<open>Deduplication\<close>

text \<open>
  The inner \<^verbatim>\<open>for group in groups: ... break ... else: groups.append([operon])\<close> of both
  deduplication functions, with the comparison of the leader \<^verbatim>\<open>group[0]\<close> against the
  candidate as the parameter \<open>matches\<close>. A group is a Python list; \<^verbatim>\<open>group[0]\<close> raises on
  an empty one.
\<close>

type_synonym groups = "operon list list"

fun add_to_groups :: "(operon \<Rightarrow> operon \<Rightarrow> bool) \<Rightarrow> operon \<Rightarrow> groups \<Rightarrow> error + groups" where
  "add_to_groups matches op [] = Inr [[op]]"
| "add_to_groups matches op (grp # rest) =
     (case grp of
        [] \<Rightarrow> Inl IndexError
      | leader # _ \<Rightarrow>
          if matches leader op then Inr ((grp @ [op]) # rest)
          else (case add_to_groups matches op rest of
                  Inl e \<Rightarrow> Inl e
                | Inr rest' \<Rightarrow> Inr (grp # rest')))"

text \<open>\<^verbatim>\<open>sorted(groups, key=lambda x: -len(x))\<close>.\<close>

definition sort_groups :: "groups \<Rightarrow> groups" where
  "sort_groups groups = sort_key (\<lambda>x. - int (length x)) groups"

text \<open>\<^verbatim>\<open>for group in groups: truly_nonredundant_operons.append(group[0])\<close>.\<close>

fun leaders :: "groups \<Rightarrow> error + operon list" where
  "leaders [] = Inr []"
| "leaders (grp # rest) =
     (case grp of
        [] \<Rightarrow> Inl IndexError
      | leader # _ \<Rightarrow> (case leaders rest of Inl e \<Rightarrow> Inl e | Inr ls \<Rightarrow> Inr (leader # ls)))"

text \<open>
  \<^verbatim>\<open>deduplicate_operons_approximate\<close>: the loop over the members of one cluster, then the
  loop over the clusters, in the order of the mapping.
\<close>

fun approximate_groups :: "operon list \<Rightarrow> groups \<Rightarrow> error + groups" where
  "approximate_groups [] groups = Inr groups"
| "approximate_groups (op # cloperons) groups =
     (case add_to_groups operons_are_approximately_equal op groups of
        Inl e \<Rightarrow> Inl e
      | Inr groups' \<Rightarrow> approximate_groups cloperons (sort_groups groups'))"

fun approximate_clusters :: "operon list list \<Rightarrow> operon list \<Rightarrow> error + operon list" where
  "approximate_clusters [] truly_nonredundant_operons = Inr truly_nonredundant_operons"
| "approximate_clusters (cloperons # rest) truly_nonredundant_operons =
     (if length cloperons = 1
      then (case cloperons of
              [] \<Rightarrow> Inl IndexError
            | c # _ \<Rightarrow> approximate_clusters rest (truly_nonredundant_operons @ [c]))
      else (case approximate_groups cloperons [] of
              Inl e \<Rightarrow> Inl e
            | Inr groups \<Rightarrow>
                (case leaders groups of
                   Inl e \<Rightarrow> Inl e
                 | Inr ls \<Rightarrow> approximate_clusters rest (truly_nonredundant_operons @ ls))))"

definition deduplicate_operons_approximate :: "operon list \<Rightarrow> error + operon list" where
  "deduplicate_operons_approximate operons =
     approximate_clusters (map snd (cluster_operons_by_feature_order operons)) []"

text \<open>
  \<^verbatim>\<open>group_similar_operons\<close>. The sequence loader and the region sequence of an Operon are
  in modules that are not part of the sources. They are parameters: \<open>load_sequence\<close> tells
  whether loading the Operon raises (\<open>Some e\<close>) or returns, \<open>frs\<close> is the value of
  \<^verbatim>\<open>operon.feature_region_sequence\<close> once the Operon has its sequence, and \<open>rc\<close> is
  \<^verbatim>\<open>reverse_complement\<close>. The two tests of the inner loop have the same body, so they are
  one disjunction.
\<close>

definition exact_match :: "(operon \<Rightarrow> 's) \<Rightarrow> ('s \<Rightarrow> 's) \<Rightarrow> operon \<Rightarrow> operon \<Rightarrow> bool" where
  "exact_match frs rc leader op =
     (let leader_seq = frs leader; forward_seq = frs op
      in forward_seq = leader_seq \<or> rc (frs op) = leader_seq)"

fun exact_groups ::
  "(operon \<Rightarrow> 's) \<Rightarrow> ('s \<Rightarrow> 's) \<Rightarrow> (operon \<Rightarrow> error option) \<Rightarrow> bool \<Rightarrow> operon list \<Rightarrow> groups
    \<Rightarrow> error + groups" where
  "exact_groups frs rc load_sequence load_sequences [] groups = Inr groups"
| "exact_groups frs rc load_sequence load_sequences (op # cloperons) groups =
     (case (if load_sequences then load_sequence op else None) of
        Some e \<Rightarrow> Inl e
      | None \<Rightarrow>
          (case add_to_groups (exact_match frs rc) op groups of
             Inl e \<Rightarrow> Inl e
           | Inr groups' \<Rightarrow>
               exact_groups frs rc load_sequence load_sequences cloperons (sort_groups groups')))"

fun exact_clusters ::
  "(operon \<Rightarrow> 's) \<Rightarrow> ('s \<Rightarrow> 's) \<Rightarrow> (operon \<Rightarrow> error option) \<Rightarrow> bool \<Rightarrow> operon list list
    \<Rightarrow> operon list \<Rightarrow> error + operon list" where
  "exact_clusters frs rc load_sequence load_sequences [] truly_nonredundant_operons =
     Inr truly_nonredundant_operons"
| "exact_clusters frs rc load_sequence load_sequences (cloperons # rest)
       truly_nonredundant_operons =
     (if length cloperons = 1
      then (case cloperons of
              [] \<Rightarrow> Inl IndexError
            | c # _ \<Rightarrow> exact_clusters frs rc load_sequence load_sequences rest
                        (truly_nonredundant_operons @ [c]))
      else (case exact_groups frs rc load_sequence load_sequences cloperons [] of
              Inl e \<Rightarrow> Inl e
            | Inr groups \<Rightarrow>
                (case leaders groups of
                   Inl e \<Rightarrow> Inl e
                 | Inr ls \<Rightarrow> exact_clusters frs rc load_sequence load_sequences rest
                              (truly_nonredundant_operons @ ls))))"

definition group_similar_operons ::
  "(operon \<Rightarrow> 's) \<Rightarrow> ('s \<Rightarrow> 's) \<Rightarrow> (operon \<Rightarrow> error option) \<Rightarrow> operon list \<Rightarrow> bool
    \<Rightarrow> error + operon list" where
  "group_similar_operons frs rc load_sequence operons load_sequences =
     exact_clusters frs rc load_sequence load_sequences
       (map snd (cluster_operons_by_feature_order operons)) []"

section \<open>The equality test in the words of the specification\<close>

text \<open>
  The name tuple, the CRISPR-free feature list and the gap tuple of an Operon, written as
  the specification describes them: active Features sorted by start; the names of all of
  them; those that are not CRISPR arrays; and, for each consecutive pair of the latter,
  \<open>next.start - previous.end\<close>.
\<close>

definition sorted_active :: "operon \<Rightarrow> feature list" where
  "sorted_active op =
     sort_key feature_start (filter (\<lambda>f. ignored_reasons f = []) (features op))"

definition name_tuple :: "operon \<Rightarrow> string list" where
  "name_tuple op = map name (sorted_active op)"

definition non_crispr :: "operon \<Rightarrow> feature list" where
  "non_crispr op = filter (\<lambda>f. name f \<noteq> ''CRISPR array'') (sorted_active op)"

definition gap_tuple :: "operon \<Rightarrow> int list" where
  "gap_tuple op =
     map (\<lambda>i. feature_start (non_crispr op ! Suc i) - feature_end (non_crispr op ! i))
       [0 ..< length (non_crispr op) - 1]"

definition sequences_agree :: "feature list \<Rightarrow> feature list \<Rightarrow> bool" where
  "sequences_agree ls os = list_all2 (\<lambda>l o'. sequence l = sequence o') ls os"


text \<open>
  Two Operons that are identical except for the coordinates of CRISPR-array Features:
  the Operon fields agree, and position by position the Features are equal or are the
  same CRISPR array with other coordinates.
\<close>

definition same_but_crispr_coordinates :: "feature \<Rightarrow> feature \<Rightarrow> bool" where
  "same_but_crispr_coordinates f g \<longleftrightarrow>
     g = f \<or> (name f = ''CRISPR array'' \<and> g = f\<lparr>coordinates := coordinates g\<rparr>)"

definition differ_only_in_crispr_coordinates :: "operon \<Rightarrow> operon \<Rightarrow> bool" where
  "differ_only_in_crispr_coordinates a b \<longleftrightarrow>
     contig a = contig b \<and> contig_filename a = contig_filename b
     \<and> operon_start a = operon_start b \<and> operon_end a = operon_end b
     \<and> list_all2 same_but_crispr_coordinates (features a) (features b)"

text \<open>An Operon on which every Feature has been ignored.\<close>

definition fully_ignored :: "operon \<Rightarrow> bool" where
  "fully_ignored op \<longleftrightarrow> list_all (\<lambda>f. ignored_reasons f \<noteq> []) (features op)"

section \<open>Notions used in the proofs\<close>

text \<open>
  The key under which the clustering loop files an Operon, given the present state of
  \<^verbatim>\<open>bins\<close>, and the invariant of that loop: keys are unique, a key and its reversal
  are never both present unless they are the same tuple, no bucket is empty, and every
  member of a bucket has the bucket's key as its forward or as its reversed name tuple.
\<close>

definition filed_key :: "bins \<Rightarrow> operon \<Rightarrow> string list" where
  "filed_key bins op =
     (if rev (get_sorted_feature_names op) \<in> fst ` set bins
      then rev (get_sorted_feature_names op) else get_sorted_feature_names op)"

definition bins_inv :: "bins \<Rightarrow> bool" where
  "bins_inv b \<longleftrightarrow>
     distinct (map fst b)
     \<and> (\<forall>k. k \<in> fst ` set b \<longrightarrow> rev k \<in> fst ` set b \<longrightarrow> rev k = k)
     \<and> (\<forall>k v. (k, v) \<in> set b \<longrightarrow> v \<noteq> [] \<and> (\<forall>x \<in> set v.
           get_sorted_feature_names x = k \<or> rev (get_sorted_feature_names x) = k))"

text \<open>
  What \<open>add_to_groups\<close> returns when no group is empty (\<open>place\<close>), the grouping loop on
  top of it (\<open>grouping\<close>), and the Operons a cluster contributes to the output
  (\<open>representatives\<close>). The deduplication functions are shown to return these values, so
  that the loops can be reasoned about without the error cases, which never occur.
\<close>

fun place :: "(operon \<Rightarrow> operon \<Rightarrow> bool) \<Rightarrow> operon \<Rightarrow> groups \<Rightarrow> groups" where
  "place matches op [] = [[op]]"
| "place matches op (grp # rest) =
     (if matches (hd grp) op then (grp @ [op]) # rest else grp # place matches op rest)"

fun grouping :: "(operon \<Rightarrow> operon \<Rightarrow> bool) \<Rightarrow> operon list \<Rightarrow> groups \<Rightarrow> groups" where
  "grouping matches [] groups = groups"
| "grouping matches (op # cloperons) groups =
     grouping matches cloperons (sort_groups (place matches op groups))"

definition representatives :: "(operon \<Rightarrow> operon \<Rightarrow> bool) \<Rightarrow> operon list \<Rightarrow> operon list" where
  "representatives matches cloperons =
     (if length cloperons = 1 then cloperons else map hd (grouping matches cloperons []))"

text \<open>
  The invariant of the grouping loop over the Operons \<open>seen\<close> so far: the groups are not
  empty, together they hold exactly the Operons seen, each group lists its members in the
  order of the input, and every member after the first matched the first.
\<close>

definition groups_inv :: "(operon \<Rightarrow> operon \<Rightarrow> bool) \<Rightarrow> operon list \<Rightarrow> groups \<Rightarrow> bool" where
  "groups_inv matches seen groups \<longleftrightarrow>
     [] \<notin> set groups \<and> mset (concat groups) = mset seen
     \<and> (\<forall>g \<in> set groups. subseq g seen \<and> (\<forall>y \<in> set (tl g). matches (hd g) y))"

text \<open>
  The leaders of the groups, listed in the order in which their groups were created: a
  rearrangement of the leaders that follows the order of the input and in which no
  Operon matches a later one.
\<close>

definition creation_order :: "(operon \<Rightarrow> operon \<Rightarrow> bool) \<Rightarrow> operon list \<Rightarrow> groups \<Rightarrow> bool" where
  "creation_order matches seen groups \<longleftrightarrow>
     (\<exists>created. mset created = mset (map hd groups) \<and> subseq created seen
        \<and> sorted_wrt (\<lambda>a b. \<not> matches a b) created)"

text \<open>A list of Operons no two of which are approximately equal.\<close>

definition apart :: "operon list \<Rightarrow> bool" where
  "apart ls \<longleftrightarrow>
     distinct ls \<and> (\<forall>x \<in> set ls. \<forall>y \<in> set ls. x \<noteq> y \<longrightarrow> \<not> operons_are_approximately_equal x y)"

section \<open>Concrete operons\<close>

text \<open>Small inputs on which the functions above are evaluated further down.\<close>

definition gene :: "string \<Rightarrow> int \<times> int \<Rightarrow> string \<Rightarrow> feature" where
  "gene nm coords sq =
     Feature_init nm coords ''orf'' (Some 1) ''acc'' (Some 0) ''descr'' sq None"

definition crispr_array :: "int \<times> int \<Rightarrow> feature" where
  "crispr_array coords =
     Feature_init ''CRISPR array'' coords [] None [] None ''descr'' ''GTT'' None"

definition mk_operon :: "string \<Rightarrow> feature list \<Rightarrow> operon" where
  "mk_operon c fs =
     \<lparr>contig = c, contig_filename = ''f.fa'', operon_start = 0, operon_end = 100, features = fs\<rparr>"

definition two_cas3 :: operon where
  "two_cas3 = mk_operon ''c1'' [gene ''cas3'' (10, 40) ''MKV'', gene ''cas3'' (50, 80) ''MKL'']"

definition one_cas3 :: operon where
  "one_cas3 = mk_operon ''c2'' [gene ''cas3'' (10, 40) ''MKV'']"





definition forward_operon :: operon where
  "forward_operon = mk_operon ''c1''
     [gene ''cas1'' (0, 10) ''MA'', gene ''cas2'' (15, 30) ''MB'', gene ''tnsB'' (50, 60) ''MC'']"

definition reverse_operon :: operon where
  "reverse_operon = mk_operon ''c2''
     [gene ''cas1'' (60, 50) ''MA'', gene ''cas2'' (45, 30) ''MB'', gene ''tnsB'' (10, 0) ''MC'']"

definition array_inside :: operon where
  "array_inside = mk_operon ''c1''
     [gene ''cas1'' (0, 10) ''MA'', crispr_array (20, 30), gene ''cas2'' (40, 50) ''MB'']"

definition array_outside :: operon where
  "array_outside = mk_operon ''c1''
     [gene ''cas1'' (0, 10) ''MA'', crispr_array (60, 70), gene ''cas2'' (40, 50) ''MB'']"

definition array_wider :: operon where
  "array_wider = mk_operon ''c1''
     [gene ''cas1'' (0, 10) ''MA'', crispr_array (15, 35), gene ''cas2'' (40, 50) ''MB'']"

definition ignored_cas3 :: operon where
  "ignored_cas3 = ignore_at one_cas3 0 ''low score''"

definition ignored_tnsB :: operon where
  "ignored_tnsB = mk_operon ''c9'' [ignore (gene ''tnsB'' (5, 9) ''MM'') ''overlaps'']"

text \<open>
  For the exact deduplication, a stand-in for the region sequence of an Operon (the
  sequences of its Features, concatenated) and the reverse complement of a nucleotide
  string. \<open>opB'\<close> carries the reverse complement of the sequence of \<open>opB\<close>.
\<close>

definition complement :: "char \<Rightarrow> char" where
  "complement c =
     (if c = CHR ''A'' then CHR ''T'' else if c = CHR ''T'' then CHR ''A''
      else if c = CHR ''C'' then CHR ''G'' else if c = CHR ''G'' then CHR ''C'' else c)"

definition reverse_complement :: "string \<Rightarrow> string" where
  "reverse_complement s = rev (map complement s)"

definition region :: "operon \<Rightarrow> string" where
  "region op = concat (map sequence (features op))"

definition opA :: operon where "opA = mk_operon ''c1'' [gene ''cas1'' (0, 10) ''AAC'']"

definition opB :: operon where "opB = mk_operon ''c2'' [gene ''cas1'' (0, 10) ''GGA'']"

definition opB' :: operon where "opB' = mk_operon ''c3'' [gene ''cas1'' (0, 10) ''TCC'']"

section \<open>Construction of an Operon\<close>

text \<open>
  Claim C6. Constructing an Operon fails if and only if the contig name is empty, or start
  is negative, or end is negative, or the feature list is empty. For every other input
  the construction succeeds and stores the five arguments unchanged; whatever Operon comes
  out of the constructor has a non-empty contig, non-negative bounds and a non-empty
  feature list.
\<close>

theorem Operon_init_fails_iff:
  "((\<exists>e. Operon_init c cf s e' fs = Inl e) \<longleftrightarrow> (c = [] \<or> s < 0 \<or> e' < 0 \<or> fs = []))
   \<and> (\<not> (c = [] \<or> s < 0 \<or> e' < 0 \<or> fs = []) \<longrightarrow>
        Operon_init c cf s e' fs =
          Inr \<lparr>contig = c, contig_filename = cf, operon_start = s, operon_end = e',
               features = fs\<rparr>)
   \<and> (\<forall>op. Operon_init c cf s e' fs = Inr op \<longrightarrow>
        contig op \<noteq> [] \<and> 0 \<le> operon_start op \<and> 0 \<le> operon_end op \<and> features op \<noteq> []
        \<and> contig op = c \<and> contig_filename op = cf \<and> operon_start op = s \<and> operon_end op = e'
        \<and> features op = fs)"
  by (auto simp: Operon_init_def)

theorem Operon_init_fails_iff_witness:
  "Operon_init ''c1'' ''f.fa'' 0 100 [gene ''cas3'' (10, 40) ''MKV''] =
     Inr \<lparr>contig = ''c1'', contig_filename = ''f.fa'', operon_start = 0, operon_end = 100,
          features = [gene ''cas3'' (10, 40) ''MKV'']\<rparr>
   \<and> (\<exists>e. Operon_init ''c1'' ''f.fa'' 0 (-1) [gene ''cas3'' (10, 40) ''MKV''] = Inl e)"
proof -
  let ?fs = "[gene ''cas3'' (10, 40) ''MKV'']"
  have ok: "\<not> (''c1'' = [] \<or> (0::int) < 0 \<or> (100::int) < 0 \<or> ?fs = [])"
    by simp
  have bad: "''c1'' = [] \<or> (0::int) < 0 \<or> (-1::int) < 0 \<or> ?fs = []"
    by simp
  from Operon_init_fails_iff [of "''c1''" "''f.fa''" 0 100 ?fs, THEN conjunct2, THEN conjunct1] ok
  have 1: "Operon_init ''c1'' ''f.fa'' 0 100 ?fs =
     Inr \<lparr>contig = ''c1'', contig_filename = ''f.fa'', operon_start = 0, operon_end = 100,
          features = ?fs\<rparr>"
    by (rule mp)
  from Operon_init_fails_iff [of "''c1''" "''f.fa''" 0 "-1" ?fs, THEN conjunct1] bad
  have 2: "\<exists>e. Operon_init ''c1'' ''f.fa'' 0 (-1) ?fs = Inl e"
    by (rule iffD2)
  from 1 2 show ?thesis by (rule conjI)
qed

section \<open>Ignoring a Feature\<close>

lemma length_filter_update:
  "i < length xs \<Longrightarrow>
   length (filter P (xs[i := y])) + (if P (xs ! i) then 1 else 0)
     = length (filter P xs) + (if P y then 1 else 0)"
proof (induction xs arbitrary: i)
  case Nil
  then show ?case by simp
next
  case (Cons x xs)
  then show ?case by (cases i) auto
qed

text \<open>
  Claim C7. \<^verbatim>\<open>len(operon)\<close> is the number of Features whose \<^verbatim>\<open>ignored_reasons\<close> is empty.
  Calling \<^verbatim>\<open>ignore(reason)\<close> on the Feature at any valid position lowers that number by
  exactly one when the Feature was active and leaves it unchanged when it was already
  ignored; the numbers of \<^verbatim>\<open>all_features\<close> and of \<^verbatim>\<open>all_genes\<close> stay the same in both cases.
\<close>

theorem len_counts_active:
  "operon_len op = length (filter (\<lambda>f. ignored_reasons f = []) (features op))
   \<and> (i < length (features op) \<longrightarrow>
        (ignored_reasons (features op ! i) = [] \<longrightarrow>
           operon_len (ignore_at op i reason) + 1 = operon_len op)
        \<and> (ignored_reasons (features op ! i) \<noteq> [] \<longrightarrow>
           operon_len (ignore_at op i reason) = operon_len op)
        \<and> length (all_features (ignore_at op i reason)) = length (all_features op)
        \<and> length (all_genes (ignore_at op i reason)) = length (all_genes op))"
proof -
  let ?fs = "features op"
  let ?fs' = "?fs[i := ignore (?fs ! i) reason]"
  have a: "length (filter (\<lambda>f. e_val f \<noteq> None) ?fs') = length (filter (\<lambda>f. e_val f \<noteq> None) ?fs)"
    if "i < length ?fs"
    using length_filter_update [OF that, of "\<lambda>f. e_val f \<noteq> None" "ignore (?fs ! i) reason"]
    by (simp add: ignore_def split: if_splits)
  have b: "length (filter (\<lambda>f. ignored_reasons f = []) ?fs')
       + (if ignored_reasons (?fs ! i) = [] then 1 else 0)
      = length (filter (\<lambda>f. ignored_reasons f = []) ?fs)"
    if "i < length ?fs"
    using length_filter_update [OF that, of "\<lambda>f. ignored_reasons f = []" "ignore (?fs ! i) reason"]
    by (simp add: ignore_def)
  show ?thesis
    using a b
    by (auto simp: operon_len_def operon_iter_def ignore_at_def all_features_def all_genes_def)
qed

theorem len_counts_active_witness:
  "operon_len two_cas3 = 2
   \<and> operon_len (ignore_at two_cas3 1 ''overlaps'') = 1
   \<and> operon_len (ignore_at (ignore_at two_cas3 1 ''overlaps'') 1 ''low score'') = 1
   \<and> length (all_genes (ignore_at two_cas3 1 ''overlaps'')) = 2"
proof -
  let ?op1 = "ignore_at two_cas3 1 ''overlaps''"
  have l: "1 < length (features two_cas3)" "1 < length (features ?op1)"
    by (simp_all add: two_cas3_def mk_operon_def ignore_at_def)
  have act: "ignored_reasons (features two_cas3 ! 1) = []"
    by (simp add: two_cas3_def mk_operon_def gene_def Feature_init_def)
  have ign: "ignored_reasons (features ?op1 ! 1) \<noteq> []"
    by (simp add: two_cas3_def mk_operon_def ignore_at_def ignore_def)
  have n: "operon_len two_cas3 = 2"
    by (simp add: len_counts_active [of two_cas3 0 "[]", THEN conjunct1])
      (simp add: two_cas3_def mk_operon_def gene_def Feature_init_def)
  have g: "length (all_genes two_cas3) = 2"
    by (simp add: all_genes_def two_cas3_def mk_operon_def gene_def Feature_init_def)
  note t1 = len_counts_active [of two_cas3 1 "''overlaps''", THEN conjunct2, rule_format, OF l(1)]
  note t2 = len_counts_active [of ?op1 1 "''low score''", THEN conjunct2, rule_format, OF l(2)]
  from t1 act n have 1: "operon_len ?op1 = 1" by simp
  from t2 ign 1 have 2: "operon_len (ignore_at ?op1 1 ''low score'') = 1" by simp
  from t1 g have 3: "length (all_genes ?op1) = 2" by simp
  from n 1 2 3 show ?thesis by simp
qed

section \<open>Lookup by name\<close>






section \<open>The evaluation pipeline\<close>

lemma evaluate_operons_length:
  "length (evaluate_operons ops ruleset filterset) = length ops"
  by (induction ops) (auto split: option.splits)

lemma evaluate_operons_nth:
  "i < length ops \<Longrightarrow>
   evaluate_operons ops ruleset filterset ! i =
     ruleset (case filterset of None \<Rightarrow> ops ! i | Some fs \<Rightarrow> fs (ops ! i))"
proof (induction ops arbitrary: i)
  case Nil
  then show ?case by simp
next
  case (Cons a ops)
  then show ?case by (cases i) (auto split: option.splits)
qed

text \<open>
  Claim C5. The pipeline yields as many Results as there are input Operons, and the
  Result at position \<open>i\<close> is the rule policy's verdict on the Operon at position \<open>i\<close>,
  after the filter policy, when there is one, has been applied to that Operon.
\<close>

theorem evaluate_operons_one_result_each:
  "length (evaluate_operons ops ruleset filterset) = length ops
   \<and> (\<forall>i < length ops. evaluate_operons ops ruleset filterset ! i =
        ruleset (case filterset of None \<Rightarrow> ops ! i | Some fs \<Rightarrow> fs (ops ! i)))"
  by (simp add: evaluate_operons_length evaluate_operons_nth)

theorem evaluate_operons_one_result_each_witness:
  "evaluate_operons [two_cas3, one_cas3] operon_len (Some (\<lambda>op. ignore_at op 0 ''low score'')) ! 1
     = operon_len (ignore_at one_cas3 0 ''low score'')"
proof -
  let ?fs = "Some (\<lambda>op. ignore_at op 0 ''low score'')"
  have "(1::nat) < length [two_cas3, one_cas3]" by simp
  with evaluate_operons_one_result_each [of "[two_cas3, one_cas3]" operon_len ?fs,
      THEN conjunct2]
  have "evaluate_operons [two_cas3, one_cas3] operon_len ?fs ! 1
     = operon_len (case ?fs of None \<Rightarrow> [two_cas3, one_cas3] ! 1
                   | Some fs \<Rightarrow> fs ([two_cas3, one_cas3] ! 1))"
    by blast
  then show ?thesis by simp
qed

section \<open>The approximate-equality test\<close>

lemmas example_defs = mk_operon_def gene_def crispr_array_def Feature_init_def
  feature_start_def feature_end_def sorted_active_def name_tuple_def non_crispr_def gap_tuple_def

lemma gaps_by_index:
  "map (\<lambda>(f1, f2). g f1 f2) (zip xs (drop 1 xs))
     = map (\<lambda>i. g (xs ! i) (xs ! Suc i)) [0 ..< length xs - 1]"
  by (rule nth_equalityI) auto

lemma all_zip_list_all2:
  "length xs = length ys \<Longrightarrow> list_all (\<lambda>(l, o'). P l o') (zip xs ys) = list_all2 P xs ys"
  by (auto simp: list_all_iff list_all2_iff)

lemma length_non_crispr:
  "length (non_crispr op) = length (filter (\<lambda>n. n \<noteq> ''CRISPR array'') (name_tuple op))"
proof -
  have "map name (non_crispr op) = filter (\<lambda>n. n \<noteq> ''CRISPR array'') (name_tuple op)"
    by (simp add: non_crispr_def name_tuple_def filter_map comp_def)
  then show ?thesis by (metis length_map)
qed

text \<open>The source function, with its local bindings named.\<close>

lemma approx_unfold:
  "operons_are_approximately_equal leader op =
    (if name_tuple leader = name_tuple op \<and> gap_tuple leader = gap_tuple op
     then list_all (\<lambda>(l, o'). sequence l = sequence o') (zip (non_crispr leader) (non_crispr op))
     else if name_tuple leader = rev (name_tuple op) \<and> gap_tuple leader = rev (gap_tuple op)
     then list_all (\<lambda>(l, o'). sequence l = sequence o')
            (zip (non_crispr leader) (rev (non_crispr op)))
     else False)"
  unfolding operons_are_approximately_equal_def Let_def name_tuple_def gap_tuple_def
    non_crispr_def sorted_active_def operon_iter_def gaps_by_index
  by (rule refl)

lemma approx_as_list_all2:
  "operons_are_approximately_equal leader op \<longleftrightarrow>
     (name_tuple leader = name_tuple op \<and> gap_tuple leader = gap_tuple op
        \<and> sequences_agree (non_crispr leader) (non_crispr op))
     \<or> (\<not> (name_tuple leader = name_tuple op \<and> gap_tuple leader = gap_tuple op)
        \<and> name_tuple leader = rev (name_tuple op) \<and> gap_tuple leader = rev (gap_tuple op)
        \<and> sequences_agree (non_crispr leader) (rev (non_crispr op)))"
proof -
  have same: "length (non_crispr leader) = length (non_crispr op)"
    if "name_tuple leader = name_tuple op"
    using that by (simp add: length_non_crispr)
  have opp: "length (non_crispr leader) = length (rev (non_crispr op))"
    if "name_tuple leader = rev (name_tuple op)"
    using that by (simp add: length_non_crispr flip: rev_filter)
  show ?thesis
    unfolding approx_unfold sequences_agree_def
    using same opp by (auto simp: all_zip_list_all2)
qed




section \<open>CRISPR arrays of different extent\<close>

lemma filter_same_but_crispr:
  "list_all2 same_but_crispr_coordinates fs gs \<Longrightarrow>
   filter (\<lambda>f. ignored_reasons f = [] \<and> name f \<noteq> ''CRISPR array'') fs
   = filter (\<lambda>f. ignored_reasons f = [] \<and> name f \<noteq> ''CRISPR array'') gs"
proof (induction rule: list_all2_induct)
  case Nil
  then show ?case by simp
next
  case (Cons f fs g gs)
  from Cons.hyps(1) have "g = f \<or> (name f = ''CRISPR array'' \<and> name g = ''CRISPR array'')"
    unfolding same_but_crispr_coordinates_def
    by (metis (no_types, lifting) feature.select_convs(1) feature.surjective
        feature.update_convs(2))
  with Cons.IH show ?case by auto
qed

lemma non_crispr_filter_first:
  "non_crispr op =
     sort_key feature_start
       (filter (\<lambda>f. ignored_reasons f = [] \<and> name f \<noteq> ''CRISPR array'') (features op))"
  by (simp add: non_crispr_def sorted_active_def filter_sort)

lemma approx_if_same_names_and_genes:
  "name_tuple a = name_tuple b \<Longrightarrow> non_crispr a = non_crispr b \<Longrightarrow>
   operons_are_approximately_equal a b"
  by (auto simp: approx_unfold gap_tuple_def list_all_iff zip_same)

text \<open>
  Claim C9, as stated, fails: the start of a CRISPR array decides its place in the name
  tuple. When the array of one Operon lies between the two genes and the array of the
  other lies after them, the name tuples differ in both orientations.
\<close>

theorem crispr_extent_counterexample:
  "differ_only_in_crispr_coordinates array_inside array_outside
   \<and> \<not> operons_are_approximately_equal array_inside array_outside"
proof -
  have d: "differ_only_in_crispr_coordinates array_inside array_outside"
    by (simp add: differ_only_in_crispr_coordinates_def same_but_crispr_coordinates_def
        array_inside_def array_outside_def mk_operon_def crispr_array_def Feature_init_def)
  have n: "name_tuple array_inside = [''cas1'', ''CRISPR array'', ''cas2'']"
      "name_tuple array_outside = [''cas1'', ''cas2'', ''CRISPR array'']"
    by (simp_all add: array_inside_def array_outside_def example_defs)
  have "\<not> operons_are_approximately_equal array_inside array_outside"
    by (simp add: approx_unfold n)
  with d show ?thesis by simp
qed

text \<open>
  Claim C9, amended. Two Operons that are identical except for the coordinates of
  CRISPR-array Features, and whose start-sorted name tuples are the same, are judged
  approximately equal.
\<close>

theorem crispr_extent_ignored:
  assumes "differ_only_in_crispr_coordinates a b" and "name_tuple a = name_tuple b"
  shows "operons_are_approximately_equal a b"
proof -
  from assms(1) have "list_all2 same_but_crispr_coordinates (features a) (features b)"
    by (simp add: differ_only_in_crispr_coordinates_def)
  then have "non_crispr a = non_crispr b"
    by (simp add: non_crispr_filter_first filter_same_but_crispr)
  with assms(2) show ?thesis by (rule approx_if_same_names_and_genes)
qed

theorem crispr_extent_ignored_witness:
  "operons_are_approximately_equal array_inside array_wider"
proof -
  have d: "differ_only_in_crispr_coordinates array_inside array_wider"
    by (simp add: differ_only_in_crispr_coordinates_def same_but_crispr_coordinates_def
        array_inside_def array_wider_def mk_operon_def crispr_array_def Feature_init_def)
  have n: "name_tuple array_inside = name_tuple array_wider"
    by (simp add: array_inside_def array_wider_def example_defs)
  from d n show ?thesis by (rule crispr_extent_ignored)
qed

section \<open>Clustering by feature order\<close>

lemma keys_bins_append:
  "map fst (bins_append k op b) = (if k \<in> fst ` set b then map fst b else map fst b @ [k])"
proof (induction b)
  case Nil
  then show ?case by simp
next
  case (Cons kv b)
  obtain k1 v1 where kv: "kv = (k1, v1)" by (cases kv)
  show ?case unfolding kv using Cons.IH by (cases "k1 = k") auto
qed

lemma fst_bins_append:
  "fst ` set (bins_append k op b) = insert k (fst ` set b)"
proof -
  have "set (map fst (bins_append k op b)) = insert k (set (map fst b))"
    unfolding keys_bins_append by (simp add: insert_absorb)
  then show ?thesis by simp
qed

lemma distinct_bins_append:
  "distinct (map fst b) \<Longrightarrow> distinct (map fst (bins_append k op b))"
  by (simp add: keys_bins_append)

lemma bins_append_keeps:
  "(k, v) \<in> set b \<Longrightarrow> \<exists>v'. (k, v') \<in> set (bins_append k' op b) \<and> set v \<subseteq> set v'"
proof (induction b)
  case Nil
  then show ?case by simp
next
  case (Cons kv b)
  obtain k1 v1 where kv: "kv = (k1, v1)" by (cases kv)
  show ?case
  proof (cases "(k, v) = kv")
    case True
    show ?thesis
    proof (cases "k = k'")
      case True
      with \<open>(k, v) = kv\<close> kv have "(k, v @ [op]) \<in> set (bins_append k' op (kv # b))" by auto
      moreover have "set v \<subseteq> set (v @ [op])" by auto
      ultimately show ?thesis by blast
    next
      case False
      with \<open>(k, v) = kv\<close> kv have "(k, v) \<in> set (bins_append k' op (kv # b))" by auto
      then show ?thesis by blast
    qed
  next
    case False
    with Cons obtain v' where v': "(k, v') \<in> set (bins_append k' op b)" "set v \<subseteq> set v'"
      by auto
    show ?thesis
    proof (cases "k1 = k'")
      case True
      with Cons.prems False kv have "(k, v) \<in> set (bins_append k' op (kv # b))" by auto
      then show ?thesis by blast
    next
      case False
      with v' kv have "(k, v') \<in> set (bins_append k' op (kv # b))" by auto
      with v'(2) show ?thesis by blast
    qed
  qed
qed

lemma bins_append_files:
  "\<exists>v. (k, v) \<in> set (bins_append k op b) \<and> op \<in> set v"
proof (induction b)
  case Nil
  then show ?case by simp
next
  case (Cons kv b)
  obtain k1 v1 where kv: "kv = (k1, v1)" by (cases kv)
  show ?case
  proof (cases "k1 = k")
    case True
    then have "(k, v1 @ [op]) \<in> set (bins_append k op (kv # b))" by (simp add: kv)
    moreover have "op \<in> set (v1 @ [op])" by simp
    ultimately show ?thesis by blast
  next
    case False
    with Cons.IH show ?thesis unfolding kv by auto
  qed
qed

lemma mset_bins_append:
  "mset (concat (map snd (bins_append k op b))) = add_mset op (mset (concat (map snd b)))"
  by (induction b) auto

lemma in_bins_append:
  "(k', v') \<in> set (bins_append k op b) \<Longrightarrow>
   (k', v') \<in> set b \<or> (k' = k \<and> (v' = [op] \<or> (\<exists>v. (k, v) \<in> set b \<and> v' = v @ [op])))"
  by (induction b) (auto split: if_splits)

lemma bins_inv_rev:
  "bins_inv b \<Longrightarrow> k \<in> fst ` set b \<Longrightarrow> rev k \<in> fst ` set b \<Longrightarrow> rev k = k"
  unfolding bins_inv_def by blast

lemma bins_inv_member:
  "bins_inv b \<Longrightarrow> (k, v) \<in> set b \<Longrightarrow> x \<in> set v \<Longrightarrow>
   get_sorted_feature_names x = k \<or> rev (get_sorted_feature_names x) = k"
  unfolding bins_inv_def by blast

lemma bins_inv_nonempty: "bins_inv b \<Longrightarrow> (k, v) \<in> set b \<Longrightarrow> v \<noteq> []"
  unfolding bins_inv_def by blast

lemma bins_inv_distinct: "bins_inv b \<Longrightarrow> distinct (map fst b)"
  unfolding bins_inv_def by blast

lemma cluster_step:
  "cluster_loop (op # operons) b = cluster_loop operons (bins_append (filed_key b op) op b)"
  by (simp add: filed_key_def Let_def)

lemma filed_key_cases:
  "filed_key b op = get_sorted_feature_names op \<or> filed_key b op = rev (get_sorted_feature_names op)"
  by (simp add: filed_key_def)

text \<open>One turn of the clustering loop keeps the invariant.\<close>

lemma bins_inv_step:
  assumes "bins_inv b"
  shows "bins_inv (bins_append (filed_key b op) op b)"
proof -
  let ?n = "get_sorted_feature_names op"
  let ?k = "filed_key b op"
  let ?b = "bins_append ?k op b"
  note d = bins_inv_distinct [OF assms]
  note r = bins_inv_rev [OF assms]
  note m = bins_inv_member [OF assms]
  note ne = bins_inv_nonempty [OF assms]
  note keys = fst_bins_append [of ?k op b]
  have 1: "distinct (map fst ?b)"
    using d by (rule distinct_bins_append)
  have new: "rev ?k = ?k" if "rev ?k \<in> fst ` set b"
  proof (cases "rev ?n \<in> fst ` set b")
    case True
    then have k: "?k = rev ?n" by (simp add: filed_key_def)
    with that have "?n \<in> fst ` set b" by simp
    with True r [of "rev ?n"] show ?thesis by (simp add: k)
  next
    case False
    then have "?k = ?n" by (simp add: filed_key_def)
    with that False show ?thesis by simp
  qed
  have 2: "rev k = k" if k: "k \<in> fst ` set ?b" and rk: "rev k \<in> fst ` set ?b" for k
  proof (cases "k = ?k")
    case True
    with rk new show ?thesis unfolding keys by auto
  next
    case False
    with k have kb: "k \<in> fst ` set b" unfolding keys by simp
    show ?thesis
    proof (cases "rev k = ?k")
      case True
      then have "rev ?k = k" by (metis rev_rev_ident)
      with kb new True show ?thesis by simp
    next
      case False
      with rk have "rev k \<in> fst ` set b" unfolding keys by simp
      with kb r show ?thesis by blast
    qed
  qed
  have 3: "v \<noteq> [] \<and> (\<forall>x \<in> set v.
           get_sorted_feature_names x = k \<or> rev (get_sorted_feature_names x) = k)"
    if "(k, v) \<in> set ?b" for k v
  proof -
    from in_bins_append [OF that]
    consider "(k, v) \<in> set b" | "k = ?k" "v = [op]"
      | u where "k = ?k" "(?k, u) \<in> set b" "v = u @ [op]"
      by blast
    then show ?thesis
    proof cases
      case 1
      with m ne show ?thesis by blast
    next
      case 2
      with filed_key_cases [of b op] show ?thesis by auto
    next
      case 3
      with m [OF 3(2)] filed_key_cases [of b op] show ?thesis by auto
    qed
  qed
  show ?thesis
    unfolding bins_inv_def
  proof (intro conjI allI impI)
    show "distinct (map fst ?b)" by (rule 1)
  next
    fix k assume "k \<in> fst ` set ?b" "rev k \<in> fst ` set ?b"
    then show "rev k = k" by (rule 2)
  next
    fix k v assume "(k, v) \<in> set ?b"
    then show "v \<noteq> []" using 3 by blast
  next
    fix k v assume "(k, v) \<in> set ?b"
    then show "\<forall>x \<in> set v. get_sorted_feature_names x = k \<or> rev (get_sorted_feature_names x) = k"
      using 3 by blast
  qed
qed

lemma bins_inv_loop: "bins_inv b \<Longrightarrow> bins_inv (cluster_loop operons b)"
proof (induction operons arbitrary: b)
  case Nil
  then show ?case by simp
next
  case (Cons op operons)
  then show ?case unfolding cluster_step by (blast intro: bins_inv_step)
qed

lemma bins_inv_empty: "bins_inv []"
  by (simp add: bins_inv_def)

lemma bins_inv_cluster: "bins_inv (cluster_operons_by_feature_order operons)"
  unfolding cluster_operons_by_feature_order_def by (rule bins_inv_loop [OF bins_inv_empty])

lemma mset_cluster_loop:
  "mset (concat (map snd (cluster_loop operons b))) = mset operons + mset (concat (map snd b))"
proof (induction operons arbitrary: b)
  case Nil
  then show ?case by simp
next
  case (Cons op operons)
  show ?case unfolding cluster_step Cons.IH by (simp add: mset_bins_append)
qed

lemma clusters_cover:
  "mset (concat (map snd (cluster_operons_by_feature_order operons))) = mset operons"
  by (simp add: cluster_operons_by_feature_order_def mset_cluster_loop)

lemma cluster_loop_append:
  "cluster_loop (xs @ ys) b = cluster_loop ys (cluster_loop xs b)"
  by (induction xs arbitrary: b) (simp_all add: Let_def)

lemma cluster_loop_keeps:
  "(k, v) \<in> set b \<Longrightarrow> \<exists>v'. (k, v') \<in> set (cluster_loop operons b) \<and> set v \<subseteq> set v'"
proof (induction operons arbitrary: b v)
  case Nil
  then show ?case by auto
next
  case (Cons op operons)
  from bins_append_keeps [OF Cons.prems]
  obtain v1 where v1: "(k, v1) \<in> set (bins_append (filed_key b op) op b)" "set v \<subseteq> set v1"
    by blast
  from Cons.IH [OF v1(1)] v1(2) show ?case unfolding cluster_step by blast
qed

lemma bins_inv_disjoint:
  assumes "bins_inv b" "(k1, v1) \<in> set b" "(k2, v2) \<in> set b" "k1 \<noteq> k2"
  shows "set v1 \<inter> set v2 = {}"
proof (rule ccontr)
  assume "set v1 \<inter> set v2 \<noteq> {}"
  then obtain x where x: "x \<in> set v1" "x \<in> set v2" by blast
  let ?n = "get_sorted_feature_names x"
  from bins_inv_member [OF assms(1,2) x(1)] have a: "?n = k1 \<or> rev ?n = k1" .
  from bins_inv_member [OF assms(1,3) x(2)] have b: "?n = k2 \<or> rev ?n = k2" .
  from assms(2,3) have keys: "k1 \<in> fst ` set b" "k2 \<in> fst ` set b"
    by (auto intro: rev_image_eqI)
  from a b assms(4) have k: "k1 = rev k2" by (metis rev_rev_ident)
  with keys have "rev k2 \<in> fst ` set b" by simp
  with bins_inv_rev [OF assms(1) keys(2)] have "rev k2 = k2" .
  with k assms(4) show False by simp
qed

lemma cluster_files:
  assumes "operons = before @ op # after"
  shows "\<exists>v. (filed_key (cluster_operons_by_feature_order before) op, v)
           \<in> set (cluster_operons_by_feature_order operons) \<and> op \<in> set v"
proof -
  let ?b = "cluster_operons_by_feature_order before"
  have c: "cluster_operons_by_feature_order operons
      = cluster_loop after (bins_append (filed_key ?b op) op ?b)"
    unfolding assms cluster_operons_by_feature_order_def cluster_loop_append cluster_step ..
  obtain v where v: "(filed_key ?b op, v) \<in> set (bins_append (filed_key ?b op) op ?b)"
      "op \<in> set v"
    using bins_append_files by blast
  from cluster_loop_keeps [OF v(1), of after] v(2) show ?thesis unfolding c by blast
qed

text \<open>
  Claim C2. The buckets of the clustering hold exactly the input Operons, each occurrence
  once; the keys of the mapping are unique and buckets under different keys have no
  Operon in common. The forward key of an Operon is the tuple of the names of its active
  Features sorted by start. The Operon at any position of the input is filed under its
  reversed key when that key is a key of the mapping built from the Operons before it,
  and under its forward key otherwise, and it is still in that bucket at the end.
\<close>

theorem clustering_partitions_input:
  "mset (concat (map snd (cluster_operons_by_feature_order operons))) = mset operons
   \<and> distinct (map fst (cluster_operons_by_feature_order operons))
   \<and> (\<forall>k1 v1 k2 v2. (k1, v1) \<in> set (cluster_operons_by_feature_order operons)
         \<and> (k2, v2) \<in> set (cluster_operons_by_feature_order operons) \<and> k1 \<noteq> k2
         \<longrightarrow> set v1 \<inter> set v2 = {})
   \<and> get_sorted_feature_names op =
       map name (sort_key feature_start (filter (\<lambda>f. ignored_reasons f = []) (features op)))
   \<and> (operons = before @ op # after \<longrightarrow>
       (\<exists>v. (if rev (get_sorted_feature_names op)
                   \<in> fst ` set (cluster_operons_by_feature_order before)
              then rev (get_sorted_feature_names op) else get_sorted_feature_names op, v)
             \<in> set (cluster_operons_by_feature_order operons) \<and> op \<in> set v))"
proof (intro conjI allI impI)
  show "mset (concat (map snd (cluster_operons_by_feature_order operons))) = mset operons"
    by (simp add: cluster_operons_by_feature_order_def mset_cluster_loop)
next
  show "distinct (map fst (cluster_operons_by_feature_order operons))"
    using bins_inv_cluster [of operons] by (simp add: bins_inv_def)
next
  fix k1 v1 k2 v2
  assume "(k1, v1) \<in> set (cluster_operons_by_feature_order operons)
         \<and> (k2, v2) \<in> set (cluster_operons_by_feature_order operons) \<and> k1 \<noteq> k2"
  then show "set v1 \<inter> set v2 = {}"
    using bins_inv_disjoint [OF bins_inv_cluster] by blast
next
  show "get_sorted_feature_names op =
       map name (sort_key feature_start (filter (\<lambda>f. ignored_reasons f = []) (features op)))"
    by (simp add: get_sorted_feature_names_def operon_iter_def)
next
  assume "operons = before @ op # after"
  from cluster_files [OF this]
  show "\<exists>v. (if rev (get_sorted_feature_names op)
                   \<in> fst ` set (cluster_operons_by_feature_order before)
              then rev (get_sorted_feature_names op) else get_sorted_feature_names op, v)
             \<in> set (cluster_operons_by_feature_order operons) \<and> op \<in> set v"
    unfolding filed_key_def .
qed

lemma names_forward_reverse:
  "get_sorted_feature_names forward_operon = [''cas1'', ''cas2'', ''tnsB'']"
  "get_sorted_feature_names reverse_operon = [''tnsB'', ''cas2'', ''cas1'']"
  by (simp_all add: get_sorted_feature_names_def operon_iter_def forward_operon_def
      reverse_operon_def mk_operon_def gene_def Feature_init_def feature_start_def)

theorem clustering_partitions_input_witness:
  "\<exists>v. ([''cas1'', ''cas2'', ''tnsB''], v)
          \<in> set (cluster_operons_by_feature_order [forward_operon, reverse_operon])
        \<and> reverse_operon \<in> set v"
proof -
  have c: "cluster_operons_by_feature_order [forward_operon]
      = [([''cas1'', ''cas2'', ''tnsB''], [forward_operon])]"
    by (simp add: cluster_operons_by_feature_order_def names_forward_reverse)
  have s: "[forward_operon, reverse_operon] = [forward_operon] @ reverse_operon # []"
    by simp
  from clustering_partitions_input [of "[forward_operon, reverse_operon]" reverse_operon
      "[forward_operon]" "[]", THEN conjunct2, THEN conjunct2, THEN conjunct2, THEN conjunct2,
      THEN mp, OF s]
  show ?thesis by (simp add: c names_forward_reverse)
qed

section \<open>The grouping loop\<close>

lemma add_to_groups_place:
  "[] \<notin> set gs \<Longrightarrow> add_to_groups m x gs = Inr (place m x gs)"
  by (induction gs) (auto split: list.splits)

lemma leaders_hd: "[] \<notin> set gs \<Longrightarrow> leaders gs = Inr (map hd gs)"
  by (induction gs) (auto split: list.splits)

lemma place_nonempty: "[] \<notin> set gs \<Longrightarrow> [] \<notin> set (place m x gs)"
  by (induction gs) auto

lemma mset_place: "mset (concat (place m x gs)) = add_mset x (mset (concat gs))"
  by (induction gs) auto

lemma set_sort_groups [simp]: "set (sort_groups gs) = set gs"
  by (simp add: sort_groups_def)

lemma mset_sort_groups [simp]: "mset (sort_groups gs) = mset gs"
  by (simp add: sort_groups_def)

lemma mset_concat_perm: "mset xs = mset ys \<Longrightarrow> mset (concat xs) = mset (concat ys)"
  by (metis mset_concat sum_mset_sum_list mset_map)

lemma mset_concat_sort_groups [simp]: "mset (concat (sort_groups gs)) = mset (concat gs)"
  by (rule mset_concat_perm) simp

lemma sorted_sort_groups: "sorted (map (\<lambda>g. - int (length g)) (sort_groups gs))"
  by (simp add: sort_groups_def)

lemma in_place:
  "g \<in> set (place m x gs) \<Longrightarrow>
   g \<in> set gs \<or> g = [x] \<or> (\<exists>g' \<in> set gs. m (hd g') x \<and> g = g' @ [x])"
  by (induction gs) (auto split: if_splits)

lemma groups_inv_place:
  assumes "groups_inv m seen gs"
  shows "groups_inv m (seen @ [x]) (place m x gs)"
proof -
  from assms have ne: "[] \<notin> set gs" by (simp add: groups_inv_def)
  have "subseq g (seen @ [x]) \<and> (\<forall>y \<in> set (tl g). m (hd g) y)" if "g \<in> set (place m x gs)" for g
  proof -
    from in_place [OF that]
    consider "g \<in> set gs" | "g = [x]" | g' where "g' \<in> set gs" "m (hd g') x" "g = g' @ [x]"
      by blast
    then show ?thesis
    proof cases
      case 1
      with assms show ?thesis by (auto simp: groups_inv_def intro: subseq_rev_drop_many)
    next
      case 2
      then show ?thesis by (simp add: subseq_singleton_left)
    next
      case 3
      with ne have "g' \<noteq> []" by auto
      with 3 assms show ?thesis
        by (auto simp: groups_inv_def intro: list_emb_append_mono)
    qed
  qed
  with assms show ?thesis
    by (simp add: groups_inv_def place_nonempty mset_place)
qed

lemma groups_inv_sort: "groups_inv m seen gs \<Longrightarrow> groups_inv m seen (sort_groups gs)"
  by (simp add: groups_inv_def)

lemma groups_inv_grouping:
  "groups_inv m seen gs \<Longrightarrow> groups_inv m (seen @ xs) (grouping m xs gs)"
proof (induction xs arbitrary: seen gs)
  case Nil
  then show ?case by simp
next
  case (Cons x xs)
  from Cons.IH [OF groups_inv_sort [OF groups_inv_place [OF Cons.prems]], of x]
  show ?case by simp
qed

lemma sorted_grouping:
  "sorted (map (\<lambda>g. - int (length g)) gs) \<Longrightarrow>
   sorted (map (\<lambda>g. - int (length g)) (grouping m xs gs))"
  by (induction xs arbitrary: gs) (simp_all add: sorted_sort_groups)

lemma grouping_nonempty: "[] \<notin> set gs \<Longrightarrow> [] \<notin> set (grouping m xs gs)"
  by (induction xs arbitrary: gs) (simp_all add: place_nonempty)

text \<open>Neither deduplication function raises \<open>IndexError\<close>: their groups are never empty.\<close>

lemma approximate_groups_grouping:
  "[] \<notin> set gs \<Longrightarrow>
   approximate_groups xs gs = Inr (grouping operons_are_approximately_equal xs gs)"
proof (induction xs arbitrary: gs)
  case Nil
  then show ?case by simp
next
  case (Cons x xs)
  then show ?case by (simp add: add_to_groups_place place_nonempty)
qed

lemma exact_groups_grouping:
  "[] \<notin> set gs \<Longrightarrow> \<not> load_sequences \<or> (\<forall>x \<in> set xs. load_sequence x = None) \<Longrightarrow>
   exact_groups frs rc load_sequence load_sequences xs gs
     = Inr (grouping (exact_match frs rc) xs gs)"
proof (induction xs arbitrary: gs)
  case Nil
  then show ?case by simp
next
  case (Cons x xs)
  then show ?case by (auto simp: add_to_groups_place place_nonempty)
qed

lemma approximate_clusters_representatives:
  "approximate_clusters cls acc
     = Inr (acc @ concat (map (representatives operons_are_approximately_equal) cls))"
proof (induction cls arbitrary: acc)
  case Nil
  then show ?case by simp
next
  case (Cons cl cls)
  show ?case
  proof (cases "length cl = 1")
    case True
    then obtain c where "cl = [c]" by (cases cl) auto
    then show ?thesis by (simp add: Cons.IH representatives_def)
  next
    case False
    then show ?thesis
      by (simp add: Cons.IH representatives_def approximate_groups_grouping leaders_hd
          grouping_nonempty)
  qed
qed

lemma exact_clusters_representatives:
  assumes "\<not> load_sequences \<or> (\<forall>x \<in> set (concat cls). load_sequence x = None)"
  shows "exact_clusters frs rc load_sequence load_sequences cls acc
     = Inr (acc @ concat (map (representatives (exact_match frs rc)) cls))"
  using assms
proof (induction cls arbitrary: acc)
  case Nil
  then show ?case by simp
next
  case (Cons cl cls)
  show ?case
  proof (cases "length cl = 1")
    case True
    then obtain c where "cl = [c]" by (cases cl) auto
    with Cons show ?thesis by (simp add: representatives_def)
  next
    case False
    from Cons.prems have "\<not> load_sequences \<or> (\<forall>x \<in> set cl. load_sequence x = None)" by auto
    then have "exact_groups frs rc load_sequence load_sequences cl []
        = Inr (grouping (exact_match frs rc) cl [])"
      by (intro exact_groups_grouping) auto
    moreover from Cons.prems
    have "\<not> load_sequences \<or> (\<forall>x \<in> set (concat cls). load_sequence x = None)" by auto
    note Cons.IH [OF this]
    ultimately show ?thesis using False
      by (simp add: representatives_def leaders_hd grouping_nonempty)
  qed
qed

lemma deduplicate_representatives:
  "deduplicate_operons_approximate operons =
     Inr (concat (map (representatives operons_are_approximately_equal)
            (map snd (cluster_operons_by_feature_order operons))))"
  by (simp add: deduplicate_operons_approximate_def approximate_clusters_representatives)

lemma representatives_subset: "set (representatives m cl) \<subseteq> set cl"
proof (cases "length cl = 1")
  case True
  then show ?thesis by (simp add: representatives_def)
next
  case False
  have "groups_inv m [] []" by (simp add: groups_inv_def)
  from groups_inv_grouping [OF this, of cl]
  have inv: "groups_inv m cl (grouping m cl [])" by simp
  have "hd g \<in> set cl" if "g \<in> set (grouping m cl [])" for g
  proof -
    from inv that have "g \<noteq> []" and "subseq g cl" by (auto simp: groups_inv_def)
    then show ?thesis by (metis hd_in_set subsetD set_nths_subset subseq_conv_nths)
  qed
  with False show ?thesis by (auto simp: representatives_def)
qed

section \<open>Approximate deduplication is idempotent\<close>

text \<open>The approximate-equality test is reflexive and symmetric.\<close>

lemma sequences_agree_sym: "sequences_agree xs ys \<Longrightarrow> sequences_agree ys xs"
  unfolding sequences_agree_def by (simp add: list_all2_conv_all_nth)

lemma sequences_agree_rev: "sequences_agree xs (rev ys) \<Longrightarrow> sequences_agree ys (rev xs)"
proof -
  assume "sequences_agree xs (rev ys)"
  then have "sequences_agree (rev ys) xs" by (rule sequences_agree_sym)
  then have "list_all2 (\<lambda>l o'. sequence l = sequence o') (rev (rev ys)) (rev xs)"
    unfolding sequences_agree_def by (simp only: list_all2_rev)
  then show ?thesis by (simp add: sequences_agree_def)
qed

lemma approx_refl: "operons_are_approximately_equal a a"
  by (simp add: approx_as_list_all2 sequences_agree_def list_all2_same)

lemma approx_sym:
  assumes "operons_are_approximately_equal a b"
  shows "operons_are_approximately_equal b a"
proof -
  from assms [unfolded approx_as_list_all2]
  consider "name_tuple a = name_tuple b" "gap_tuple a = gap_tuple b"
      "sequences_agree (non_crispr a) (non_crispr b)"
    | "\<not> (name_tuple a = name_tuple b \<and> gap_tuple a = gap_tuple b)"
      "name_tuple a = rev (name_tuple b)" "gap_tuple a = rev (gap_tuple b)"
      "sequences_agree (non_crispr a) (rev (non_crispr b))"
    by blast
  then show ?thesis
  proof cases
    case 1
    then show ?thesis
      by (simp add: approx_as_list_all2 [of b a] sequences_agree_sym)
  next
    case 2
    from 2(4) have "sequences_agree (non_crispr b) (rev (non_crispr a))"
      by (rule sequences_agree_rev)
    moreover from 2(2) have "name_tuple b = rev (name_tuple a)" by simp
    moreover from 2(3) have "gap_tuple b = rev (gap_tuple a)" by simp
    moreover from 2(1) have "\<not> (name_tuple b = name_tuple a \<and> gap_tuple b = gap_tuple a)" by auto
    ultimately show ?thesis unfolding approx_as_list_all2 [of b a] by blast
  qed
qed

lemma names_are_name_tuple: "get_sorted_feature_names op = name_tuple op"
  by (simp add: get_sorted_feature_names_def name_tuple_def sorted_active_def operon_iter_def)

lemma approx_same_topology:
  "operons_are_approximately_equal a b \<Longrightarrow>
   get_sorted_feature_names a = get_sorted_feature_names b
   \<or> get_sorted_feature_names a = rev (get_sorted_feature_names b)"
  unfolding names_are_name_tuple approx_as_list_all2 by blast

lemma bins_inv_same_bucket:
  assumes "bins_inv b" "(k1, v1) \<in> set b" "(k2, v2) \<in> set b" "x \<in> set v1" "y \<in> set v2"
    and xy: "get_sorted_feature_names x = get_sorted_feature_names y
       \<or> get_sorted_feature_names x = rev (get_sorted_feature_names y)"
  shows "k1 = k2"
proof (rule ccontr)
  assume ne: "k1 \<noteq> k2"
  let ?n = "get_sorted_feature_names x" and ?m = "get_sorted_feature_names y"
  from bins_inv_member [OF assms(1,2,4)] have a: "?n = k1 \<or> rev ?n = k1" .
  from bins_inv_member [OF assms(1,3,5)] have b: "?m = k2 \<or> rev ?m = k2" .
  from assms(2,3) have keys: "k1 \<in> fst ` set b" "k2 \<in> fst ` set b"
    by (auto intro: rev_image_eqI)
  from a b xy ne have k: "k1 = rev k2" by (metis rev_rev_ident)
  with keys have "rev k2 \<in> fst ` set b" by simp
  with bins_inv_rev [OF assms(1) keys(2)] have "rev k2 = k2" .
  with k ne show False by simp
qed

lemma apart_mset: "mset xs = mset ys \<Longrightarrow> apart xs \<Longrightarrow> apart ys"
  unfolding apart_def by (metis mset_eq_imp_distinct_iff mset_eq_setD)

lemma apart_append:
  "apart xs \<Longrightarrow> apart ys \<Longrightarrow>
   (\<forall>x \<in> set xs. \<forall>y \<in> set ys. x \<noteq> y \<and> \<not> operons_are_approximately_equal x y) \<Longrightarrow>
   apart (xs @ ys)"
  unfolding apart_def using approx_sym by auto

lemma place_leaders:
  "[] \<notin> set gs \<Longrightarrow>
   map hd (place m x gs) = (if \<exists>g \<in> set gs. m (hd g) x then map hd gs else map hd gs @ [x])"
  by (induction gs) auto

text \<open>The leaders of the groups are pairwise not approximately equal, all along the loop.\<close>

lemma apart_place:
  assumes "apart (map hd gs)" "[] \<notin> set gs"
  shows "apart (map hd (place operons_are_approximately_equal x gs))"
proof (cases "\<exists>g \<in> set gs. operons_are_approximately_equal (hd g) x")
  case True
  with assms show ?thesis by (simp add: place_leaders)
next
  case False
  then have no: "\<forall>l \<in> set (map hd gs). \<not> operons_are_approximately_equal l x" by auto
  with approx_refl have "\<forall>l \<in> set (map hd gs). l \<noteq> x" by blast
  with no have "\<forall>l \<in> set (map hd gs). \<forall>y \<in> set [x]. l \<noteq> y \<and> \<not> operons_are_approximately_equal l y"
    by simp
  moreover have "apart [x]" by (simp add: apart_def)
  ultimately have "apart (map hd gs @ [x])" using assms(1) by (intro apart_append)
  with False assms(2) show ?thesis by (simp add: place_leaders)
qed

lemma apart_sort_groups: "apart (map hd gs) \<Longrightarrow> apart (map hd (sort_groups gs))"
proof -
  have "mset (map hd gs) = mset (map hd (sort_groups gs))" by simp
  then show "apart (map hd gs) \<Longrightarrow> apart (map hd (sort_groups gs))" by (rule apart_mset)
qed

lemma apart_grouping:
  "[] \<notin> set gs \<Longrightarrow> apart (map hd gs) \<Longrightarrow>
   apart (map hd (grouping operons_are_approximately_equal xs gs))"
proof (induction xs arbitrary: gs)
  case Nil
  then show ?case by simp
next
  case (Cons x xs)
  from Cons.prems have "apart (map hd (sort_groups (place operons_are_approximately_equal x gs)))"
    by (intro apart_sort_groups apart_place)
  moreover from Cons.prems have "[] \<notin> set (sort_groups (place operons_are_approximately_equal x gs))"
    by (simp add: place_nonempty)
  ultimately show ?case using Cons.IH by simp
qed

lemma apart_representatives: "apart (representatives operons_are_approximately_equal cl)"
proof (cases "length cl = 1")
  case True
  then obtain c where "cl = [c]" by (cases cl) auto
  then show ?thesis by (simp add: representatives_def apart_def)
next
  case False
  have "apart (map hd (grouping operons_are_approximately_equal cl []))"
    by (rule apart_grouping) (simp_all add: apart_def)
  with False show ?thesis by (simp add: representatives_def)
qed

lemma apart_concat:
  assumes "\<forall>c \<in> set cs. apart c"
    and "sorted_wrt (\<lambda>c1 c2. \<forall>x \<in> set c1. \<forall>y \<in> set c2.
           x \<noteq> y \<and> \<not> operons_are_approximately_equal x y) cs"
  shows "apart (concat cs)"
  using assms
proof (induction cs)
  case Nil
  then show ?case by (simp add: apart_def)
next
  case (Cons c cs)
  from Cons have "apart c" "apart (concat cs)" by simp_all
  moreover from Cons.prems(2)
  have "\<forall>x \<in> set c. \<forall>y \<in> set (concat cs). x \<noteq> y \<and> \<not> operons_are_approximately_equal x y"
    by auto
  ultimately show ?case by (simp add: apart_append)
qed

lemma sorted_wrt_distinct_keys:
  "distinct (map fst b) \<Longrightarrow> (\<forall>a \<in> set b. \<forall>c \<in> set b. fst a \<noteq> fst c \<longrightarrow> Q a c) \<Longrightarrow>
   sorted_wrt Q b"
  by (induction b) (auto simp: image_iff)

lemma apart_deduplicated:
  assumes "bins_inv b"
  shows "apart (concat (map (representatives operons_are_approximately_equal) (map snd b)))"
proof (rule apart_concat)
  show "\<forall>c \<in> set (map (representatives operons_are_approximately_equal) (map snd b)). apart c"
    by (auto simp: apart_representatives)
next
  let ?reps = "representatives operons_are_approximately_equal"
  have cross: "x \<noteq> y \<and> \<not> operons_are_approximately_equal x y"
    if "a \<in> set b" "c \<in> set b" "fst a \<noteq> fst c" "x \<in> set (?reps (snd a))"
      "y \<in> set (?reps (snd c))" for a c x y
  proof -
    from that(4,5) representatives_subset have xy: "x \<in> set (snd a)" "y \<in> set (snd c)"
      by blast+
    from that(1,2) have m: "(fst a, snd a) \<in> set b" "(fst c, snd c) \<in> set b" by simp_all
    have "fst a = fst c"
      if "get_sorted_feature_names x = get_sorted_feature_names y
         \<or> get_sorted_feature_names x = rev (get_sorted_feature_names y)"
      using bins_inv_same_bucket [OF assms m xy that] .
    with that(3) approx_same_topology [of x y] show ?thesis by auto
  qed
  have "sorted_wrt (\<lambda>a c. \<forall>x \<in> set (?reps (snd a)). \<forall>y \<in> set (?reps (snd c)).
           x \<noteq> y \<and> \<not> operons_are_approximately_equal x y) b"
    by (rule sorted_wrt_distinct_keys [OF bins_inv_distinct [OF assms]]) (use cross in blast)
  then show "sorted_wrt (\<lambda>c1 c2. \<forall>x \<in> set c1. \<forall>y \<in> set c2.
       x \<noteq> y \<and> \<not> operons_are_approximately_equal x y) (map ?reps (map snd b))"
    by (simp add: sorted_wrt_map)
qed

text \<open>On a list of pairwise unequal Operons every Operon founds its own group.\<close>

lemma place_no_match: "\<forall>g \<in> set gs. \<not> m (hd g) x \<Longrightarrow> place m x gs = gs @ [[x]]"
  by (induction gs) auto

lemma sort_groups_singletons: "sort_groups (map (\<lambda>x. [x]) xs) = map (\<lambda>x. [x]) xs"
  unfolding sort_groups_def
  by (rule sort_key_id_if_sorted) (simp add: comp_def sorted_wrt_iff_nth_less)

lemma grouping_apart:
  "apart (ds @ xs) \<Longrightarrow>
   grouping operons_are_approximately_equal xs (map (\<lambda>x. [x]) ds) = map (\<lambda>x. [x]) (ds @ xs)"
proof (induction xs arbitrary: ds)
  case Nil
  then show ?case by simp
next
  case (Cons x xs)
  from Cons.prems have "\<forall>d \<in> set ds. \<not> operons_are_approximately_equal d x"
    by (auto simp: apart_def)
  then have p: "place operons_are_approximately_equal x (map (\<lambda>x. [x]) ds)
      = map (\<lambda>x. [x]) (ds @ [x])"
    by (simp add: place_no_match)
  from Cons.prems have a: "apart ((ds @ [x]) @ xs)" by simp
  have "grouping operons_are_approximately_equal (x # xs) (map (\<lambda>x. [x]) ds)
      = grouping operons_are_approximately_equal xs (sort_groups (map (\<lambda>x. [x]) (ds @ [x])))"
    by (simp only: grouping.simps p)
  also have "\<dots> = grouping operons_are_approximately_equal xs (map (\<lambda>x. [x]) (ds @ [x]))"
    by (simp only: sort_groups_singletons)
  also have "\<dots> = map (\<lambda>x. [x]) ((ds @ [x]) @ xs)"
    by (rule Cons.IH [OF a])
  finally show ?case by simp
qed

lemma representatives_apart:
  "apart cl \<Longrightarrow> representatives operons_are_approximately_equal cl = cl"
  using grouping_apart [of "[]" cl] by (simp add: representatives_def comp_def)

lemma apart_bucket:
  assumes "apart ds" "mset (concat vs) = mset ds" "v \<in> set vs"
  shows "apart v"
proof -
  from assms(1,2) have "distinct (concat vs)"
    by (metis apart_def mset_eq_imp_distinct_iff)
  with assms(3) have "distinct v" by (auto simp: distinct_concat_iff)
  moreover from assms(2,3) have "set v \<subseteq> set ds"
    by (metis mset_eq_setD set_concat UN_upper image_set list.set_map Sup_upper2 subset_refl image_eqI)
  ultimately show ?thesis using assms(1) unfolding apart_def by blast
qed

lemma deduplicate_apart:
  assumes "apart ds"
  shows "deduplicate_operons_approximate ds
    = Inr (concat (map snd (cluster_operons_by_feature_order ds)))"
proof -
  have "map (representatives operons_are_approximately_equal)
          (map snd (cluster_operons_by_feature_order ds))
      = map snd (cluster_operons_by_feature_order ds)"
    by (rule map_idI) (rule representatives_apart, rule apart_bucket [OF assms clusters_cover])
  then show ?thesis by (simp only: deduplicate_representatives)
qed

text \<open>
  Claim C4. Approximate deduplication never raises, and running it on its own output
  returns the same Operons: the same multiset, hence the same set and the same number of
  representatives.
\<close>

theorem approximate_deduplication_idempotent:
  "\<exists>once twice. deduplicate_operons_approximate operons = Inr once
     \<and> deduplicate_operons_approximate once = Inr twice
     \<and> mset twice = mset once \<and> set twice = set once \<and> length twice = length once"
proof -
  let ?once = "concat (map (representatives operons_are_approximately_equal)
            (map snd (cluster_operons_by_feature_order operons)))"
  let ?twice = "concat (map snd (cluster_operons_by_feature_order ?once))"
  have 1: "deduplicate_operons_approximate operons = Inr ?once"
    by (rule deduplicate_representatives)
  have "apart ?once" by (rule apart_deduplicated [OF bins_inv_cluster])
  then have 2: "deduplicate_operons_approximate ?once = Inr ?twice"
    by (rule deduplicate_apart)
  have 3: "mset ?twice = mset ?once" by (rule clusters_cover)
  then have "set ?twice = set ?once" "length ?twice = length ?once"
    by (rule mset_eq_setD, rule mset_eq_length)
  with 1 2 3 show ?thesis by blast
qed

section \<open>Operons without active Features\<close>

lemma fully_ignored_sorted_active: "fully_ignored op \<longleftrightarrow> sorted_active op = []"
proof -
  have "sorted_active op = [] \<longleftrightarrow> filter (\<lambda>f. ignored_reasons f = []) (features op) = []"
    unfolding sorted_active_def
    using length_sort [of feature_start "filter (\<lambda>f. ignored_reasons f = []) (features op)"]
    by (simp only: length_0_conv [symmetric])
  then show ?thesis by (simp add: fully_ignored_def list_all_iff filter_empty_conv)
qed

lemma fully_ignored_names: "fully_ignored op \<longleftrightarrow> get_sorted_feature_names op = []"
  by (simp add: names_are_name_tuple name_tuple_def fully_ignored_sorted_active)

lemma fully_ignored_approx:
  "fully_ignored a \<Longrightarrow> fully_ignored b \<Longrightarrow> operons_are_approximately_equal a b"
  by (rule approx_if_same_names_and_genes)
    (simp_all add: name_tuple_def non_crispr_def fully_ignored_sorted_active)

lemma grouping_all_match:
  "g \<noteq> [] \<Longrightarrow> \<forall>x \<in> set xs. m (hd g) x \<Longrightarrow> grouping m xs [g] = [g @ xs]"
proof (induction xs arbitrary: g)
  case Nil
  then show ?case by simp
next
  case (Cons x xs)
  from Cons.prems have "grouping m (x # xs) [g] = grouping m xs [g @ [x]]"
    by (simp add: sort_groups_def)
  also from Cons.prems have "\<dots> = [(g @ [x]) @ xs]"
    by (intro Cons.IH) auto
  finally show ?case by simp
qed

lemma representatives_all_match:
  assumes "cl \<noteq> []" "\<forall>x \<in> set cl. \<forall>y \<in> set cl. m x y"
  shows "representatives m cl = [hd cl]"
proof -
  from assms(1) obtain c cs where cl: "cl = c # cs" by (cases cl) auto
  with assms(2) have "grouping m cs [[c]] = [[c] @ cs]"
    by (intro grouping_all_match) auto
  then show ?thesis by (auto simp: representatives_def cl sort_groups_def)
qed

lemma length_concat_indicator:
  "(\<forall>a \<in> set as. length (f a) = (if P a then 1 else 0)) \<Longrightarrow>
   length (concat (map f as)) = length (filter P as)"
  by (induction as) auto

lemma distinct_count: "distinct ks \<Longrightarrow> length (filter (\<lambda>k. k = a) ks) = (if a \<in> set ks then 1 else 0)"
  by (induction ks) auto

lemma fully_ignored_bucket:
  assumes "bins_inv b" "(k, v) \<in> set b"
  shows "length (filter fully_ignored (representatives operons_are_approximately_equal v))
     = (if k = [] then 1 else 0)"
proof (cases "k = []")
  case True
  with assms have all: "\<forall>x \<in> set v. fully_ignored x"
    using bins_inv_member [OF assms] by (auto simp: fully_ignored_names)
  from assms have "v \<noteq> []" by (rule bins_inv_nonempty)
  moreover from all have "\<forall>x \<in> set v. \<forall>y \<in> set v. operons_are_approximately_equal x y"
    by (simp add: fully_ignored_approx)
  ultimately have "representatives operons_are_approximately_equal v = [hd v]"
    by (rule representatives_all_match)
  with all \<open>v \<noteq> []\<close> True show ?thesis by simp
next
  case False
  have "\<not> fully_ignored x" if "x \<in> set v" for x
    using bins_inv_member [OF assms that] False by (auto simp: fully_ignored_names)
  with representatives_subset [of operons_are_approximately_equal v]
  have "filter fully_ignored (representatives operons_are_approximately_equal v) = []"
    by (auto simp: filter_empty_conv)
  with False show ?thesis by simp
qed

lemma empty_key_iff:
  "[] \<in> fst ` set (cluster_operons_by_feature_order operons) \<longleftrightarrow> (\<exists>x \<in> set operons. fully_ignored x)"
proof
  let ?c = "cluster_operons_by_feature_order operons"
  assume "[] \<in> fst ` set ?c"
  then obtain v where v: "([], v) \<in> set ?c" by auto
  with bins_inv_nonempty [OF bins_inv_cluster] obtain x where x: "x \<in> set v"
    by (metis last_in_set)
  from bins_inv_member [OF bins_inv_cluster v x] have "fully_ignored x"
    by (auto simp: fully_ignored_names)
  moreover from v x have "x \<in> set (concat (map snd ?c))" by force
  then have "x \<in> set operons" by (metis clusters_cover mset_eq_setD)
  ultimately show "\<exists>x \<in> set operons. fully_ignored x" by blast
next
  let ?c = "cluster_operons_by_feature_order operons"
  assume "\<exists>x \<in> set operons. fully_ignored x"
  then obtain x where x: "x \<in> set operons" "fully_ignored x" by blast
  then have "x \<in> set (concat (map snd ?c))" by (metis clusters_cover mset_eq_setD)
  then obtain k v where kv: "(k, v) \<in> set ?c" "x \<in> set v" by auto
  from bins_inv_member [OF bins_inv_cluster kv] x(2) have "k = []"
    by (auto simp: fully_ignored_names)
  with kv show "[] \<in> fst ` set ?c" by force
qed

text \<open>
  Claim C10. An Operon whose Features are all ignored has the empty name tuple as its
  clustering key; any two such Operons are judged approximately equal; and the output of
  approximate deduplication contains exactly one fully ignored Operon when the input
  contains any (and none otherwise), whatever their contigs, positions and Features.
\<close>

theorem fully_ignored_collapse:
  "(fully_ignored a \<longrightarrow> get_sorted_feature_names a = [])
   \<and> (fully_ignored a \<and> fully_ignored b \<longrightarrow> operons_are_approximately_equal a b)
   \<and> (\<exists>out. deduplicate_operons_approximate operons = Inr out
        \<and> length (filter fully_ignored out) = (if \<exists>x \<in> set operons. fully_ignored x then 1 else 0))"
proof (intro conjI impI)
  assume "fully_ignored a"
  then show "get_sorted_feature_names a = []" by (simp add: fully_ignored_names)
next
  assume "fully_ignored a \<and> fully_ignored b"
  then show "operons_are_approximately_equal a b" by (simp add: fully_ignored_approx)
next
  let ?c = "cluster_operons_by_feature_order operons"
  let ?out = "concat (map (representatives operons_are_approximately_equal) (map snd ?c))"
  have "length (filter fully_ignored ?out)
      = length (concat (map (\<lambda>kv. filter fully_ignored
          (representatives operons_are_approximately_equal (snd kv))) ?c))"
    by (simp add: filter_concat comp_def)
  also have "\<dots> = length (filter (\<lambda>kv. fst kv = []) ?c)"
    by (rule length_concat_indicator)
      (use fully_ignored_bucket [OF bins_inv_cluster] in auto)
  also have "\<dots> = length (filter (\<lambda>k. k = []) (map fst ?c))"
    by (simp add: filter_map comp_def)
  also have "\<dots> = (if [] \<in> set (map fst ?c) then 1 else 0)"
    by (rule distinct_count [OF bins_inv_distinct [OF bins_inv_cluster]])
  also have "\<dots> = (if \<exists>x \<in> set operons. fully_ignored x then 1 else 0)"
    using empty_key_iff [of operons] by simp
  finally show "\<exists>out. deduplicate_operons_approximate operons = Inr out
        \<and> length (filter fully_ignored out) = (if \<exists>x \<in> set operons. fully_ignored x then 1 else 0)"
    using deduplicate_representatives [of operons] by blast
qed

theorem fully_ignored_collapse_witness:
  "get_sorted_feature_names ignored_cas3 = []
   \<and> operons_are_approximately_equal ignored_cas3 ignored_tnsB
   \<and> (\<exists>out. deduplicate_operons_approximate [ignored_cas3, forward_operon, ignored_tnsB] = Inr out
        \<and> length (filter fully_ignored out) = 1)"
proof -
  have i: "fully_ignored ignored_cas3" "fully_ignored ignored_tnsB"
    by (simp_all add: fully_ignored_def ignored_cas3_def ignored_tnsB_def one_cas3_def
        ignore_at_def ignore_def mk_operon_def)
  then have e: "\<exists>x \<in> set [ignored_cas3, forward_operon, ignored_tnsB]. fully_ignored x"
    by simp
  note t = fully_ignored_collapse [of ignored_cas3 ignored_tnsB
      "[ignored_cas3, forward_operon, ignored_tnsB]"]
  from t i(1) have 1: "get_sorted_feature_names ignored_cas3 = []" by blast
  from t i have 2: "operons_are_approximately_equal ignored_cas3 ignored_tnsB" by blast
  from t e have 3: "\<exists>out. deduplicate_operons_approximate [ignored_cas3, forward_operon, ignored_tnsB] = Inr out
        \<and> length (filter fully_ignored out) = 1"
    by (simp only: if_True)
  from 1 2 3 show ?thesis by blast
qed

section \<open>Exact deduplication\<close>

text \<open>
  The creation order of the groups survives the re-sorting, whatever the test. The test
  of the exact deduplication is reflexive, and it is an equivalence as soon as the
  reverse complement is an involution.
\<close>

lemma creation_order_place:
  assumes "creation_order m seen gs" "[] \<notin> set gs"
  shows "creation_order m (seen @ [x]) (place m x gs)"
proof -
  from assms(1) obtain created where c: "mset created = mset (map hd gs)" "subseq created seen"
      "sorted_wrt (\<lambda>a b. \<not> m a b) created"
    unfolding creation_order_def by blast
  show ?thesis
  proof (cases "\<exists>g \<in> set gs. m (hd g) x")
    case True
    with assms(2) have "map hd (place m x gs) = map hd gs" by (simp add: place_leaders)
    moreover from c(2) have "subseq created (seen @ [x])" by (rule subseq_rev_drop_many)
    ultimately show ?thesis unfolding creation_order_def using c(1,3) by metis
  next
    case False
    with assms(2) have l: "map hd (place m x gs) = map hd gs @ [x]" by (simp add: place_leaders)
    from c(1) have "set created = set (map hd gs)" by (rule mset_eq_setD)
    with False have "\<forall>a \<in> set created. \<not> m a x" by auto
    with c(3) have s: "sorted_wrt (\<lambda>a b. \<not> m a b) (created @ [x])"
      by (simp add: sorted_wrt_append)
    from c(2) have e: "subseq (created @ [x]) (seen @ [x])"
      by (simp add: list_emb_append_mono)
    from c(1) have "mset (created @ [x]) = mset (map hd gs @ [x])" by simp
    with s e l show ?thesis unfolding creation_order_def by metis
  qed
qed

lemma creation_order_sort:
  "creation_order m seen gs \<Longrightarrow> creation_order m seen (sort_groups gs)"
  by (simp add: creation_order_def)

lemma creation_order_grouping:
  "creation_order m seen gs \<Longrightarrow> [] \<notin> set gs \<Longrightarrow>
   creation_order m (seen @ xs) (grouping m xs gs)"
proof (induction xs arbitrary: seen gs)
  case Nil
  then show ?case by simp
next
  case (Cons x xs)
  from Cons.prems have "creation_order m (seen @ [x]) (sort_groups (place m x gs))"
    by (intro creation_order_sort creation_order_place)
  moreover from Cons.prems have "[] \<notin> set (sort_groups (place m x gs))"
    by (simp add: place_nonempty)
  ultimately have "creation_order m ((seen @ [x]) @ xs) (grouping m xs (sort_groups (place m x gs)))"
    by (rule Cons.IH)
  then show ?case by simp
qed

lemma creation_order_cluster: "creation_order m cl (grouping m cl [])"
  using creation_order_grouping [of m "[]" "[]" cl] by (simp add: creation_order_def)

lemma exact_match_refl: "exact_match frs rc x x"
  by (simp add: exact_match_def)

lemma exact_match_sym:
  "(\<forall>s. rc (rc s) = s) \<Longrightarrow> exact_match frs rc a b \<Longrightarrow> exact_match frs rc b a"
  unfolding exact_match_def Let_def by metis

lemma exact_match_trans:
  "(\<forall>s. rc (rc s) = s) \<Longrightarrow> exact_match frs rc a b \<Longrightarrow> exact_match frs rc b c \<Longrightarrow>
   exact_match frs rc a c"
  unfolding exact_match_def Let_def by metis

lemma sorted_wrt_not_refl_distinct:
  "(\<And>x. m x x) \<Longrightarrow> sorted_wrt (\<lambda>a b. \<not> m a b) xs \<Longrightarrow> distinct xs"
  by (induction xs) auto

lemma sorted_wrt_sym_pairwise:
  assumes "sorted_wrt (\<lambda>a b. \<not> m a b) xs" "\<And>a b. m a b \<Longrightarrow> m b a"
    "a \<in> set xs" "b \<in> set xs" "a \<noteq> b"
  shows "\<not> m a b"
  using assms(1,3,4,5)
proof (induction xs)
  case Nil
  then show ?case by simp
next
  case (Cons x xs)
  then show ?case using assms(2) by auto
qed

lemma creation_order_distinct:
  assumes "creation_order (exact_match frs rc) seen gs"
  shows "distinct (map hd gs)"
proof -
  from assms obtain created where c: "mset created = mset (map hd gs)"
      "sorted_wrt (\<lambda>a b. \<not> exact_match frs rc a b) created"
    unfolding creation_order_def by blast
  from c(2) have "distinct created"
    by (rule sorted_wrt_not_refl_distinct [rotated]) (rule exact_match_refl)
  with c(1) show ?thesis by (metis mset_eq_imp_distinct_iff)
qed

lemma one_leader_each:
  assumes inv: "groups_inv (exact_match frs rc) cl gs"
    and co: "creation_order (exact_match frs rc) cl gs"
    and rc: "\<forall>s. rc (rc s) = s" and x: "x \<in> set cl"
  shows "\<exists>!l. l \<in> set (map hd gs) \<and> exact_match frs rc l x"
proof (rule ex_ex1I)
  from inv x have "x \<in> set (concat gs)" unfolding groups_inv_def by (metis mset_eq_setD)
  then obtain g where g: "g \<in> set gs" "x \<in> set g" by auto
  with inv have ne: "g \<noteq> []" and m: "\<forall>y \<in> set (tl g). exact_match frs rc (hd g) y"
    unfolding groups_inv_def by auto
  from ne g(2) have "x = hd g \<or> x \<in> set (tl g)" by (cases g) auto
  with m have "exact_match frs rc (hd g) x" using exact_match_refl by metis
  with g(1) show "\<exists>l. l \<in> set (map hd gs) \<and> exact_match frs rc l x" by auto
next
  fix l l'
  assume l: "l \<in> set (map hd gs) \<and> exact_match frs rc l x"
    and l': "l' \<in> set (map hd gs) \<and> exact_match frs rc l' x"
  from co obtain created where c: "mset created = mset (map hd gs)"
      "sorted_wrt (\<lambda>a b. \<not> exact_match frs rc a b) created"
    unfolding creation_order_def by blast
  from c(1) have s: "set created = set (map hd gs)" by (rule mset_eq_setD)
  from l l' rc have "exact_match frs rc l l'"
    by (metis exact_match_sym exact_match_trans)
  moreover have "\<not> exact_match frs rc l l'" if "l \<noteq> l'"
    by (rule sorted_wrt_sym_pairwise [OF c(2)])
      (use rc exact_match_sym in blast, use l l' s that in simp_all)
  ultimately show "l = l'" by blast
qed

lemma exact_cluster_groups:
  assumes "\<not> load_sequences \<or> (\<forall>x \<in> set cl. load_sequence x = None)"
  shows "\<exists>groups. exact_groups frs rc load_sequence load_sequences cl [] = Inr groups
      \<and> representatives (exact_match frs rc) cl = (if length cl = 1 then cl else map hd groups)
      \<and> [] \<notin> set groups \<and> mset (concat groups) = mset cl
      \<and> (\<forall>g \<in> set groups. subseq g cl \<and> (\<forall>y \<in> set (tl g). exact_match frs rc (hd g) y))
      \<and> sorted (map (\<lambda>g. - int (length g)) groups)
      \<and> distinct (map hd groups)
      \<and> (\<exists>created. mset created = mset (map hd groups) \<and> subseq created cl
            \<and> sorted_wrt (\<lambda>a b. \<not> exact_match frs rc a b) created)
      \<and> ((\<forall>s. rc (rc s) = s) \<longrightarrow>
            (\<forall>x \<in> set cl. \<exists>!l. l \<in> set (map hd groups) \<and> exact_match frs rc l x))"
proof -
  let ?g = "grouping (exact_match frs rc) cl []"
  have 1: "exact_groups frs rc load_sequence load_sequences cl [] = Inr ?g"
    using assms by (intro exact_groups_grouping) auto
  have "groups_inv (exact_match frs rc) [] []" by (simp add: groups_inv_def)
  from groups_inv_grouping [OF this, of cl]
  have inv: "groups_inv (exact_match frs rc) cl ?g" by simp
  have s: "sorted (map (\<lambda>g. - int (length g)) ?g)"
    by (rule sorted_grouping) simp
  have r: "representatives (exact_match frs rc) cl = (if length cl = 1 then cl else map hd ?g)"
    by (simp add: representatives_def)
  have co: "creation_order (exact_match frs rc) cl ?g" by (rule creation_order_cluster)
  then have c: "\<exists>created. mset created = mset (map hd ?g) \<and> subseq created cl
            \<and> sorted_wrt (\<lambda>a b. \<not> exact_match frs rc a b) created"
    by (simp add: creation_order_def)
  have d: "distinct (map hd ?g)" using co by (rule creation_order_distinct)
  have u: "\<forall>x \<in> set cl. \<exists>!l. l \<in> set (map hd ?g) \<and> exact_match frs rc l x"
    if "\<forall>s. rc (rc s) = s"
    using one_leader_each [OF inv co that] by blast
  from inv have i: "[] \<notin> set ?g" "mset (concat ?g) = mset cl"
    "\<forall>g \<in> set ?g. subseq g cl \<and> (\<forall>y \<in> set (tl g). exact_match frs rc (hd g) y)"
    unfolding groups_inv_def by blast+
  show ?thesis
    by (rule exI [of _ ?g]) (intro conjI impI 1 r i s d c u)
qed

lemma names_ABB:
  "get_sorted_feature_names opA = [''cas1'']" "get_sorted_feature_names opB = [''cas1'']"
  "get_sorted_feature_names opB' = [''cas1'']"
  by (simp_all add: get_sorted_feature_names_def operon_iter_def opA_def opB_def opB'_def
      mk_operon_def gene_def Feature_init_def)

lemma cluster_ABB:
  "cluster_operons_by_feature_order [opA, opB, opB'] = [([''cas1''], [opA, opB, opB'])]"
  by (simp add: cluster_operons_by_feature_order_def names_ABB)

lemma region_ABB: "region opA = ''AAC''" "region opB = ''GGA''" "region opB' = ''TCC''"
  by (simp_all add: region_def opA_def opB_def opB'_def mk_operon_def gene_def Feature_init_def)

lemma match_ABB:
  "\<not> exact_match region reverse_complement opA opB"
  "\<not> exact_match region reverse_complement opA opB'"
  "exact_match region reverse_complement opB opB'"
  by (simp_all add: exact_match_def region_ABB reverse_complement_def complement_def)

lemma exact_groups_ABB:
  "exact_groups region reverse_complement (\<lambda>_. None) True [opA, opB, opB'] []
     = Inr [[opB, opB'], [opA]]"
  by (simp add: match_ABB sort_groups_def)

lemma complement_involution: "complement (complement c) = c"
  by (simp add: complement_def)

lemma reverse_complement_involution: "reverse_complement (reverse_complement s) = s"
  by (simp add: reverse_complement_def rev_map comp_def complement_involution)

lemma cluster_BAB:
  "cluster_operons_by_feature_order [opB, opA, opB'] = [([''cas1''], [opB, opA, opB'])]"
  by (simp add: cluster_operons_by_feature_order_def names_ABB)

lemma match_BAB:
  "\<not> exact_match region reverse_complement opB opA"
  by (simp add: exact_match_def region_ABB reverse_complement_def complement_def)

lemma exact_groups_BAB:
  "exact_groups region reverse_complement (\<lambda>_. None) True [opB, opA, opB'] []
     = Inr [[opB, opB'], [opA]]"
  by (simp add: match_ABB match_BAB sort_groups_def)

text \<open>
  Claim C3, as stated, fails in its second half: the leaders do not come out in the order
  in which their groups were created. The group list is re-sorted by decreasing size
  after every insertion. With the input \<open>opA, opB, opB'\<close> in one cluster, the group of
  \<open>opA\<close> is created first, the group of \<open>opB\<close> second, \<open>opB'\<close> joins the latter, and the
  output lists \<open>opB\<close> before \<open>opA\<close>: it is not a subsequence of the input.
\<close>

theorem exact_order_counterexample:
  "group_similar_operons region reverse_complement (\<lambda>_. None) [opA, opB, opB'] True
     = Inr [opB, opA]
   \<and> \<not> subseq [opB, opA] [opA, opB, opB']"
proof -
  have "group_similar_operons region reverse_complement (\<lambda>_. None) [opA, opB, opB'] True
     = Inr [opB, opA]"
    by (simp only: group_similar_operons_def cluster_ABB list.map snd_conv exact_clusters.simps
        exact_groups_ABB) simp
  moreover have "opA \<noteq> opB" "opA \<noteq> opB'"
    by (simp_all add: opA_def opB_def opB'_def mk_operon_def)
  then have "\<not> subseq [opB, opA] [opA, opB, opB']"
    by (auto simp: subseq_Cons2_iff) 
  ultimately show ?thesis by simp
qed

text \<open>
  Claim C3, amended. When loading the sequences does not fail, exact deduplication
  returns, cluster after cluster in the order of the mapping, the only member of a
  cluster of one, and otherwise exactly one representative per equivalence group: the
  leader of each group of the final group list, the first Operon inserted into the group.
  The groups together hold exactly the Operons of the cluster, each group in input order
  with every later member matching the leader. The leaders are distinct, and listed in
  the order in which their groups were created none of them matches a later one; when the
  reverse complement is an involution, every Operon of the cluster is matched by exactly
  one leader. The leaders come out in the order of the group list as re-sorted after each
  insertion, that is by non-increasing group size, not in the order of creation.
\<close>

theorem exact_deduplication_leaders:
  assumes "\<not> load_sequences \<or> (\<forall>x \<in> set operons. load_sequence x = None)"
  shows "\<exists>chunks.
     group_similar_operons frs rc load_sequence operons load_sequences = Inr (concat chunks)
     \<and> list_all2 (\<lambda>cl chunk.
          \<exists>groups. exact_groups frs rc load_sequence load_sequences cl [] = Inr groups
            \<and> chunk = (if length cl = 1 then cl else map hd groups)
            \<and> [] \<notin> set groups \<and> mset (concat groups) = mset cl
            \<and> (\<forall>g \<in> set groups. subseq g cl \<and> (\<forall>y \<in> set (tl g). exact_match frs rc (hd g) y))
            \<and> sorted (map (\<lambda>g. - int (length g)) groups)
            \<and> distinct (map hd groups)
            \<and> (\<exists>created. mset created = mset (map hd groups) \<and> subseq created cl
                  \<and> sorted_wrt (\<lambda>a b. \<not> exact_match frs rc a b) created)
            \<and> ((\<forall>s. rc (rc s) = s) \<longrightarrow>
                  (\<forall>x \<in> set cl. \<exists>!l. l \<in> set (map hd groups) \<and> exact_match frs rc l x)))
        (map snd (cluster_operons_by_feature_order operons)) chunks"
proof -
  let ?cls = "map snd (cluster_operons_by_feature_order operons)"
  let ?chunks = "map (representatives (exact_match frs rc)) ?cls"
  have sub: "set (concat ?cls) = set operons"
    by (metis clusters_cover mset_eq_setD)
  with assms have l: "\<not> load_sequences \<or> (\<forall>x \<in> set (concat ?cls). load_sequence x = None)"
    by simp
  have 1: "group_similar_operons frs rc load_sequence operons load_sequences = Inr (concat ?chunks)"
    unfolding group_similar_operons_def
    using exact_clusters_representatives [OF l, of frs rc "[]"] by simp
  have "\<exists>groups. exact_groups frs rc load_sequence load_sequences cl [] = Inr groups
      \<and> representatives (exact_match frs rc) cl = (if length cl = 1 then cl else map hd groups)
      \<and> [] \<notin> set groups \<and> mset (concat groups) = mset cl
      \<and> (\<forall>g \<in> set groups. subseq g cl \<and> (\<forall>y \<in> set (tl g). exact_match frs rc (hd g) y))
      \<and> sorted (map (\<lambda>g. - int (length g)) groups)
      \<and> distinct (map hd groups)
      \<and> (\<exists>created. mset created = mset (map hd groups) \<and> subseq created cl
            \<and> sorted_wrt (\<lambda>a b. \<not> exact_match frs rc a b) created)
      \<and> ((\<forall>s. rc (rc s) = s) \<longrightarrow>
            (\<forall>x \<in> set cl. \<exists>!l. l \<in> set (map hd groups) \<and> exact_match frs rc l x))"
    if "cl \<in> set ?cls" for cl
  proof (rule exact_cluster_groups)
    from that have "set cl \<subseteq> set (concat ?cls)" by auto
    with l show "\<not> load_sequences \<or> (\<forall>x \<in> set cl. load_sequence x = None)" by blast
  qed
  then have 2: "list_all2 (\<lambda>cl chunk.
          \<exists>groups. exact_groups frs rc load_sequence load_sequences cl [] = Inr groups
            \<and> chunk = (if length cl = 1 then cl else map hd groups)
            \<and> [] \<notin> set groups \<and> mset (concat groups) = mset cl
            \<and> (\<forall>g \<in> set groups. subseq g cl \<and> (\<forall>y \<in> set (tl g). exact_match frs rc (hd g) y))
            \<and> sorted (map (\<lambda>g. - int (length g)) groups)
            \<and> distinct (map hd groups)
            \<and> (\<exists>created. mset created = mset (map hd groups) \<and> subseq created cl
                  \<and> sorted_wrt (\<lambda>a b. \<not> exact_match frs rc a b) created)
            \<and> ((\<forall>s. rc (rc s) = s) \<longrightarrow>
                  (\<forall>x \<in> set cl. \<exists>!l. l \<in> set (map hd groups) \<and> exact_match frs rc l x)))
       ?cls ?chunks"
    by (simp only: list_all2_map2 list_all2_same) blast
  from 1 2 show ?thesis by blast
qed

theorem exact_deduplication_leaders_witness:
  "group_similar_operons region reverse_complement (\<lambda>_. None) [opB, opA, opB'] True
     = Inr [opB, opA]
   \<and> (\<exists>!l. l \<in> set [opB, opA] \<and> exact_match region reverse_complement l opB')"
proof -
  have h: "\<not> True \<or> (\<forall>x \<in> set [opB, opA, opB']. (\<lambda>_. None :: error option) x = None)" by simp
  from exact_deduplication_leaders [where load_sequences = True and operons = "[opB, opA, opB']"
      and load_sequence = "\<lambda>_. None" and frs = region and rc = reverse_complement, OF h]
  obtain chunks where
    c: "group_similar_operons region reverse_complement (\<lambda>_. None) [opB, opA, opB'] True
          = Inr (concat chunks)"
    and l: "list_all2 (\<lambda>cl chunk.
          \<exists>groups. exact_groups region reverse_complement (\<lambda>_. None) True cl [] = Inr groups
            \<and> chunk = (if length cl = 1 then cl else map hd groups)
            \<and> [] \<notin> set groups \<and> mset (concat groups) = mset cl
            \<and> (\<forall>g \<in> set groups. subseq g cl
                  \<and> (\<forall>y \<in> set (tl g). exact_match region reverse_complement (hd g) y))
            \<and> sorted (map (\<lambda>g. - int (length g)) groups)
            \<and> distinct (map hd groups)
            \<and> (\<exists>created. mset created = mset (map hd groups) \<and> subseq created cl
                  \<and> sorted_wrt (\<lambda>a b. \<not> exact_match region reverse_complement a b) created)
            \<and> ((\<forall>s. reverse_complement (reverse_complement s) = s) \<longrightarrow>
                  (\<forall>x \<in> set cl. \<exists>!l. l \<in> set (map hd groups)
                      \<and> exact_match region reverse_complement l x)))
        (map snd (cluster_operons_by_feature_order [opB, opA, opB'])) chunks"
    by blast
  from l have "chunks = [[opB, opA]]
      \<and> (\<forall>x \<in> set [opB, opA, opB']. \<exists>!l. l \<in> set (map hd [[opB, opB'], [opA]])
            \<and> exact_match region reverse_complement l x)"
    unfolding cluster_BAB list.map snd_conv list_all2_Cons1 list_all2_Nil exact_groups_BAB
    using reverse_complement_involution by auto
  with c show ?thesis by simp
qed

end
